theory Spec2Isabelle
  imports Main "HOL-Library.Monad_Syntax"
begin

section \<open>Data model\<close>

text \<open>
  The inlining heuristic of the optimizing compiler (\<^verbatim>\<open>src/compiler/js-inlining-heuristic.cc\<close>)
  works on the compiler's graph of nodes and on descriptors of the functions a call may
  reach. Only the heuristic itself is in the source file; the node class, the operators,
  the function descriptors and the \<^verbatim>\<open>Candidate\<close> struct are declared elsewhere, and
  are modelled here from what the specification says about them.
\<close>

subsection \<open>The arithmetic of int\<close>

text \<open>
  The counters of the source (\<^verbatim>\<open>cumulative_count_\<close>, \<^verbatim>\<open>candidate.total_size\<close>, \<^verbatim>\<open>level\<close> and the
  local \<^verbatim>\<open>total_size\<close> of the drain step) are C++ \<^verbatim>\<open>int\<close>s, 32 bits in two's complement,
  between \<^verbatim>\<open>kMinInt\<close> and \<^verbatim>\<open>kMaxInt\<close>. A sum that leaves this range is undefined in C++, and
  the compiled code wraps around. The model holds such a counter as an integer in the
  range and writes the wrap-around out: an addition of the source is \<open>wrap_int\<close> of the sum in
  the integers.
\<close>

definition kMinInt :: int where "kMinInt = - 2147483648"

definition kMaxInt :: int where "kMaxInt = 2147483647"

definition wrap_int :: "int \<Rightarrow> int" where
  "wrap_int x = (x - kMinInt) mod 4294967296 + kMinInt"

subsection \<open>Function descriptors\<close>

text \<open>
  Modelled from the spec: the function descriptor (\<^verbatim>\<open>SharedFunctionInfo\<close>), which
  "exposes: built-in-ness, user-code-ness, presence/absence of compiled executable form,
  executable size (bytecode length)", and the force-inline flag the collector reads.
  The bytecode length is an \<^verbatim>\<open>int\<close> that is never negative, the length of a heap array; it
  is a natural number here, at most \<^verbatim>\<open>kMaxInt\<close> in every descriptor the source can meet.
\<close>

record SharedFunctionInfo =
  HasBuiltinFunctionId :: bool
  IsUserJavaScript :: bool
  HasBytecodeArray :: bool
  bytecode_array_length :: nat
  force_inline :: bool

text \<open>
  Modelled from the spec: a closure (\<^verbatim>\<open>JSFunction\<close>) is an object on the heap, known by
  its address, that refers to its function descriptor.
\<close>

record JSFunction =
  address :: nat
  shared :: SharedFunctionInfo

datatype HeapObject = JSFunctionObject JSFunction | OtherObject nat | NullHandle

text \<open>
  Modelled from the spec: a resolved target of a candidate is either a concrete closure
  or "unresolved-shared", known shared code that is not yet a closure. The source keeps
  the second case as a null entry \<^verbatim>\<open>functions[0]\<close> beside \<^verbatim>\<open>shared_info\<close>.
\<close>

datatype Target = Function JSFunction | UnresolvedShared SharedFunctionInfo

text \<open>
  \<^verbatim>\<open>candidate.functions[i].is_null() ? candidate.shared_info
                                   : handle(candidate.functions[i]->shared())\<close>
\<close>

fun target_shared :: "Target \<Rightarrow> SharedFunctionInfo" where
  "target_shared (Function f) = shared f"
| "target_shared (UnresolvedShared s) = s"

text \<open>The handle \<^verbatim>\<open>candidate.functions[i]\<close> as a heap object; it is null for shared code.\<close>

fun target_object :: "Target \<Rightarrow> HeapObject" where
  "target_object (Function f) = JSFunctionObject f"
| "target_object (UnresolvedShared s) = NullHandle"

subsection \<open>Call frequency and candidates\<close>

text \<open>
  Modelled from the spec: a frequency is "either a known non-negative estimate of relative
  call-site hotness or an explicit unknown marker". The source holds a floating-point
  number and compares known values only with \<^verbatim>\<open><\<close> and \<^verbatim>\<open>>\<close>, which order the numbers
  linearly; the values are taken from an arbitrary linear order \<open>'f\<close>.
\<close>

datatype 'f CallFrequency = Unknown | Known 'f

fun IsUnknown :: "'f CallFrequency \<Rightarrow> bool" where
  "IsUnknown Unknown = True"
| "IsUnknown (Known v) = False"

definition IsKnown :: "'f CallFrequency \<Rightarrow> bool" where
  "IsKnown f = (\<not> IsUnknown f)"

text \<open>
  Modelled from the spec: the \<^verbatim>\<open>Candidate\<close> struct: the call node (by its id), the ordered
  list of resolved targets (the field \<^verbatim>\<open>functions\<close> of the source, here \<open>target_functions\<close>;
  \<^verbatim>\<open>num_functions\<close> is its length), the parallel per-target inlinability flags, the
  frequency and the aggregate bytecode size of the inlinable targets.
\<close>

record 'f Candidate =
  node :: nat
  target_functions :: "Target list"
  can_inline_function :: "bool list"
  frequency :: "'f CallFrequency"
  total_size :: int

definition num_functions :: "'f Candidate \<Rightarrow> nat" where
  "num_functions c = length (target_functions c)"

subsection \<open>The graph\<close>

text \<open>
  Modelled from the spec: the graph node model, which the source file uses but does not
  define. The spec's design notes describe it as "an arena of nodes addressed by stable
  indices", with edges as index pairs, "kill" as a flag, and the use-count of a node as
  the number of input edges that point to it. A node's id is its index in the arena; ids
  are never reused.
\<close>

text \<open>
  Modelled from the spec: a frame state stands for "a genuine JS-function activation" or
  for a "synthetic/builtin" frame.
\<close>

datatype FrameStateType = JSFunctionFrame | SyntheticFrame

definition IsJSFunctionType :: "FrameStateType \<Rightarrow> bool" where
  "IsJSFunctionType t = (t = JSFunctionFrame)"

text \<open>
  Modelled from the spec: the operators the heuristic looks at or creates, each with the
  parameter the heuristic reads from it (the frequency of a call or construct operator,
  the object of a heap constant, the number of value inputs of a phi, an effect phi or a
  merge, the shared function descriptor of a closure creation, the type of a frame
  state), and every other operator; and the opcode of an operator.
\<close>

datatype 'f Operator =
    JSCall "'f CallFrequency"
  | JSConstruct "'f CallFrequency"
  | HeapConstant HeapObject
  | Phi nat
  | JSCreateClosure SharedFunctionInfo
  | FrameState FrameStateType
  | StateValues
  | Checkpoint
  | EffectPhi nat
  | Merge nat
  | Branch
  | IfTrue
  | IfFalse
  | IfSuccess
  | IfException
  | ReferenceEqual
  | Dead
  | OtherOperator nat

datatype Opcode =
    kJSCall | kJSConstruct | kHeapConstant | kPhi | kJSCreateClosure | kFrameState
  | kStateValues | kCheckpoint | kEffectPhi | kMerge | kBranch | kIfTrue | kIfFalse
  | kIfSuccess | kIfException | kReferenceEqual | kDead | kOther

fun opcode_of :: "'f Operator \<Rightarrow> Opcode" where
  "opcode_of (JSCall f) = kJSCall"
| "opcode_of (JSConstruct f) = kJSConstruct"
| "opcode_of (HeapConstant h) = kHeapConstant"
| "opcode_of (Phi k) = kPhi"
| "opcode_of (JSCreateClosure s) = kJSCreateClosure"
| "opcode_of (FrameState t) = kFrameState"
| "opcode_of StateValues = kStateValues"
| "opcode_of Checkpoint = kCheckpoint"
| "opcode_of (EffectPhi k) = kEffectPhi"
| "opcode_of (Merge k) = kMerge"
| "opcode_of Branch = kBranch"
| "opcode_of IfTrue = kIfTrue"
| "opcode_of IfFalse = kIfFalse"
| "opcode_of IfSuccess = kIfSuccess"
| "opcode_of IfException = kIfException"
| "opcode_of ReferenceEqual = kReferenceEqual"
| "opcode_of Dead = kDead"
| "opcode_of (OtherOperator k) = kOther"

text \<open>Modelled from the spec: a call site is "a direct call or constructor call".\<close>

definition IsInlineeOpcode :: "Opcode \<Rightarrow> bool" where
  "IsInlineeOpcode c = (c = kJSConstruct \<or> c = kJSCall)"

text \<open>
  Modelled from the spec: the readers of operator parameters (\<^verbatim>\<open>CallParametersOf\<close>,
  \<^verbatim>\<open>ConstructParametersOf\<close>, \<^verbatim>\<open>OpParameter<FrameStateInfo>\<close>). The last equation of each is
  for operators the source never asks.
\<close>

fun frequency_of :: "'f Operator \<Rightarrow> 'f CallFrequency" where
  "frequency_of (JSCall f) = f"
| "frequency_of (JSConstruct f) = f"
| "frequency_of other = Unknown"

fun frame_type_of :: "'f Operator \<Rightarrow> FrameStateType" where
  "frame_type_of (FrameState t) = t"
| "frame_type_of other = SyntheticFrame"

text \<open>
  Modelled from the spec: a node has an operator, its input edges and the kill mark. A new
  node and a clone get the next id; replacing an input rewrites one edge; killing a node
  marks it and drops its input edges, so that it no longer counts as a use of its inputs.
\<close>

record 'f Node =
  operator :: "'f Operator"
  inputs :: "nat list"
  killed :: bool

type_synonym 'f Graph = "'f Node list"

definition opcode :: "'f Graph \<Rightarrow> nat \<Rightarrow> Opcode" where
  "opcode g n = opcode_of (operator (g ! n))"

definition InputCount :: "'f Graph \<Rightarrow> nat \<Rightarrow> nat" where
  "InputCount g n = length (inputs (g ! n))"

definition InputAt :: "'f Graph \<Rightarrow> nat \<Rightarrow> nat \<Rightarrow> nat" where
  "InputAt g n i = inputs (g ! n) ! i"

definition UseCount :: "'f Graph \<Rightarrow> nat \<Rightarrow> nat" where
  "UseCount g n = sum_list (map (\<lambda>m. count_list (inputs m) n) g)"

definition use_edges :: "'f Graph \<Rightarrow> nat \<Rightarrow> (nat \<times> nat) list" where
  "use_edges g n =
     concat (map (\<lambda>m. map (\<lambda>i. (m, i))
                        (filter (\<lambda>i. inputs (g ! m) ! i = n) [0..<length (inputs (g ! m))]))
                 [0..<length g])"

definition IsDead :: "'f Graph \<Rightarrow> nat \<Rightarrow> bool" where
  "IsDead g n = killed (g ! n)"

definition NewNode :: "'f Graph \<Rightarrow> 'f Operator \<Rightarrow> nat list \<Rightarrow> nat \<times> 'f Graph" where
  "NewNode g oper ins = (length g, g @ [\<lparr>operator = oper, inputs = ins, killed = False\<rparr>])"

definition CloneNode :: "'f Graph \<Rightarrow> nat \<Rightarrow> nat \<times> 'f Graph" where
  "CloneNode g n = NewNode g (operator (g ! n)) (inputs (g ! n))"

definition ReplaceInput :: "'f Graph \<Rightarrow> nat \<Rightarrow> nat \<Rightarrow> nat \<Rightarrow> 'f Graph" where
  "ReplaceInput g n i v = g[n := (g ! n)\<lparr>inputs := (inputs (g ! n))[i := v]\<rparr>]"

definition Kill :: "'f Graph \<Rightarrow> nat \<Rightarrow> 'f Graph" where
  "Kill g n = g[n := (g ! n)\<lparr>inputs := [], killed := True\<rparr>]"

text \<open>
  Modelled from the spec: the accessors of \<^verbatim>\<open>NodeProperties\<close>. A node's inputs are
  arranged as values, frame state, effect, control; the source itself addresses the control
  input of a call as \<^verbatim>\<open>input_count - 1\<close>, its effect input as \<^verbatim>\<open>input_count - 2\<close> and its
  frame state as \<^verbatim>\<open>input_count - 3\<close>, the control of a checkpoint as input 2 of 3 and the
  control of a phi over \<open>n\<close> values as input \<open>n\<close>. A frame state's own frame-state input is its
  outer frame state.
\<close>

definition kFrameStateLocalsInput :: nat where "kFrameStateLocalsInput = 1"

definition kFrameStateStackInput :: nat where "kFrameStateStackInput = 2"

definition kFrameStateOuterStateInput :: nat where "kFrameStateOuterStateInput = 5"

definition GetValueInput :: "'f Graph \<Rightarrow> nat \<Rightarrow> nat \<Rightarrow> nat" where
  "GetValueInput g n i = InputAt g n i"

definition GetControlInput :: "'f Graph \<Rightarrow> nat \<Rightarrow> nat" where
  "GetControlInput g n = InputAt g n (InputCount g n - 1)"

definition GetEffectInput :: "'f Graph \<Rightarrow> nat \<Rightarrow> nat" where
  "GetEffectInput g n = InputAt g n (InputCount g n - 2)"

definition GetFrameStateInput :: "'f Graph \<Rightarrow> nat \<Rightarrow> nat" where
  "GetFrameStateInput g n =
     (if opcode g n = kFrameState then InputAt g n kFrameStateOuterStateInput
      else InputAt g n (InputCount g n - 3))"

text \<open>
  Modelled from the spec: the graph's canonical nodes (\<^verbatim>\<open>jsgraph()->HeapConstant(f)\<close>,
  \<^verbatim>\<open>jsgraph()->Dead()\<close>). The spec speaks only of "that target's function constant"; the
  cache is modelled as the first live node without inputs that carries the operator, and a
  new node when there is none.
\<close>

definition CachedNode :: "'f Graph \<Rightarrow> 'f Operator \<Rightarrow> nat \<times> 'f Graph" where
  "CachedNode g oper =
     (case find (\<lambda>n. operator (g ! n) = oper \<and> inputs (g ! n) = [] \<and> \<not> killed (g ! n))
                [0..<length g] of
        Some n \<Rightarrow> (n, g)
      | None \<Rightarrow> NewNode g oper [])"

subsection \<open>Configuration, collaborators and the heuristic's state\<close>

text \<open>
  Modelled from the spec: the operating modes (restricted, general, stress), the two modes
  of renaming in the metadata, and the outcome of a reduction, which either reports no
  change or names the replacement node.
\<close>

datatype Mode = kGeneralInlining | kRestrictedInlining | kStressInlining

datatype StateCloneMode = kCloneState | kChangeInPlace

datatype Reduction = NoChange | Replace nat

fun Changed :: "Reduction \<Rightarrow> bool" where
  "Changed NoChange = False"
| "Changed (Replace n) = True"

text \<open>
  Modelled from the spec: the configuration surface and the consumed collaborators, which
  are parameters of the model: the flags; the cap \<^verbatim>\<open>kMaxCallPolymorphism\<close>; the reserved cost
  \<^verbatim>\<open>static_cast<int>(total_size * FLAG_reserve_inline_budget_scale_factor)\<close> of a total size,
  a floating-point product taken as a function \<open>reserved_size\<close>; the external inliner
  \<^verbatim>\<open>inliner_.ReduceJSCall\<close>, which transforms the graph and returns a reduction; and the
  reducer services \<^verbatim>\<open>NodeProperties::IsExceptionalCall\<close> and \<^verbatim>\<open>ReplaceWithValue\<close>.
\<close>

record 'f Config =
  FLAG_polymorphic_inlining :: bool
  FLAG_max_inlined_bytecode_size :: int
  FLAG_max_inlined_bytecode_size_small :: int
  FLAG_max_inlined_bytecode_size_absolute :: int
  FLAG_max_inlined_bytecode_size_cumulative :: int
  FLAG_min_inlining_frequency :: 'f
  FLAG_max_inlining_levels :: int
  kMaxCallPolymorphism :: nat
  reserved_size :: "int \<Rightarrow> int"
  ReduceJSCall :: "'f Graph \<Rightarrow> nat \<Rightarrow> Reduction \<times> 'f Graph"
  IsExceptionalCall :: "'f Graph \<Rightarrow> nat \<Rightarrow> nat option"
  ReplaceWithValue :: "'f Graph \<Rightarrow> nat \<Rightarrow> nat \<Rightarrow> nat \<Rightarrow> nat \<Rightarrow> 'f Graph"

text \<open>
  Modelled from the spec: the state of the heuristic, which is the members of
  \<^verbatim>\<open>JSInliningHeuristic\<close>: \<^verbatim>\<open>mode_\<close>, \<^verbatim>\<open>seen_\<close>, \<^verbatim>\<open>candidates_\<close> (an ordered
  set, kept as the list of its elements in iteration order), \<^verbatim>\<open>cumulative_count_\<close> and the
  graph it works on. The counter is an \<^verbatim>\<open>int\<close>, a value between \<^verbatim>\<open>kMinInt\<close> and \<^verbatim>\<open>kMaxInt\<close>.
\<close>

record 'f Heuristic =
  mode :: Mode
  seen :: "nat set"
  candidates :: "'f Candidate list"
  cumulative_count :: int
  graph :: "'f Graph"

section \<open>The backlog order\<close>

text \<open>\<^verbatim>\<open>JSInliningHeuristic::CandidateCompare::operator()\<close>, branch by branch.\<close>

definition CandidateCompare :: "('f::linorder) Candidate \<Rightarrow> 'f Candidate \<Rightarrow> bool" where
  "CandidateCompare left right =
     (case frequency right of
        Unknown \<Rightarrow>
          (case frequency left of
             Unknown \<Rightarrow> node left > node right
           | Known l \<Rightarrow> True)
      | Known r \<Rightarrow>
          (case frequency left of
             Unknown \<Rightarrow> False
           | Known l \<Rightarrow>
               if l > r then True
               else if l < r then False
               else node left > node right))"

text \<open>
  \<^verbatim>\<open>candidates_.insert(candidate)\<close> on the ordered set: the new element goes before the
  first element it precedes, and is dropped when the set holds an element equivalent to it
  (neither precedes the other).
\<close>

fun candidates_insert :: "('f::linorder) Candidate \<Rightarrow> 'f Candidate list \<Rightarrow> 'f Candidate list" where
  "candidates_insert c [] = [c]"
| "candidates_insert c (x # xs) =
     (if CandidateCompare c x then c # x # xs
      else if CandidateCompare x c then x # candidates_insert c xs
      else x # xs)"

section \<open>Candidate collection\<close>

text \<open>
  The inner loop of \<^verbatim>\<open>CollectFunctions\<close> over the inputs of a phi: every input has to be
  a constant closure, or the result is zero functions.
\<close>

fun CollectFunctions_inputs :: "'f Graph \<Rightarrow> nat list \<Rightarrow> Target list option" where
  "CollectFunctions_inputs g [] = Some []"
| "CollectFunctions_inputs g (input # rest) =
     (case operator (g ! input) of
        HeapConstant (JSFunctionObject f) \<Rightarrow>
          (case CollectFunctions_inputs g rest of
             None \<Rightarrow> None
           | Some fs \<Rightarrow> Some (Function f # fs))
      | _ \<Rightarrow> None)"

text \<open>
  \<^verbatim>\<open>CollectFunctions\<close>: the resolved targets of a callee node; the returned count is the
  length of the list.
\<close>

definition CollectFunctions :: "'f Graph \<Rightarrow> nat \<Rightarrow> nat \<Rightarrow> Target list" where
  "CollectFunctions g nd functions_size =
     (case operator (g ! nd) of
        HeapConstant (JSFunctionObject f) \<Rightarrow> [Function f]
      | Phi value_input_count \<Rightarrow>
          if value_input_count > functions_size then []
          else (case CollectFunctions_inputs g (map (InputAt g nd) [0..<value_input_count]) of
                  None \<Rightarrow> []
                | Some fs \<Rightarrow> fs)
      | JSCreateClosure shared_info \<Rightarrow> [UnresolvedShared shared_info]
      | _ \<Rightarrow> [])"

definition CanInlineFunction :: "'f Config \<Rightarrow> SharedFunctionInfo \<Rightarrow> bool" where
  "CanInlineFunction cfg sh =
     (if HasBuiltinFunctionId sh then False
      else if \<not> IsUserJavaScript sh then False
      else if \<not> HasBytecodeArray sh then False
      else if int (bytecode_array_length sh) > FLAG_max_inlined_bytecode_size cfg then False
      else True)"

definition IsSmallInlineFunction :: "'f Config \<Rightarrow> SharedFunctionInfo \<Rightarrow> bool" where
  "IsSmallInlineFunction cfg sh =
     (if HasBytecodeArray sh
         \<and> int (bytecode_array_length sh) \<le> FLAG_max_inlined_bytecode_size_small cfg
      then True else False)"

text \<open>
  The loop of \<^verbatim>\<open>Reduce\<close> over the targets (lines 107 to 125). The accumulator holds
  \<^verbatim>\<open>can_inline\<close>, \<^verbatim>\<open>force_inline\<close>, \<^verbatim>\<open>small_inline\<close>, \<^verbatim>\<open>candidate.total_size\<close> and
  \<^verbatim>\<open>candidate.can_inline_function\<close>.
\<close>

fun Reduce_targets ::
  "'f Config \<Rightarrow> Target list \<Rightarrow> bool \<times> bool \<times> bool \<times> int \<times> bool list
     \<Rightarrow> bool \<times> bool \<times> bool \<times> int \<times> bool list" where
  "Reduce_targets cfg [] acc = acc"
| "Reduce_targets cfg (f # fs) (can_inline, force_inl, small_inline, sizes, flags) =
     (let sh = target_shared f;
          force_inl' = (if \<not> force_inline sh then False else force_inl);
          can = CanInlineFunction cfg sh;
          can_inline' = (if can then True else can_inline);
          sizes' = (if can then wrap_int (sizes + int (bytecode_array_length sh)) else sizes);
          small_inline' = (if \<not> IsSmallInlineFunction cfg sh then False else small_inline)
      in Reduce_targets cfg fs (can_inline', force_inl', small_inline', sizes', flags @ [can]))"

text \<open>
  The walk of \<^verbatim>\<open>Reduce\<close> along the chain of enclosing frame states (lines 130 to 145).
  It answers whether the call site is still within the allowed inlining depth. The chain
  of a malformed graph may be cyclic, and then the walk need not end.
\<close>

partial_function (option) Reduce_levels :: "'f Config \<Rightarrow> 'f Graph \<Rightarrow> nat \<Rightarrow> int \<Rightarrow> bool option" where
  "Reduce_levels cfg g frame_state level =
     (if opcode g frame_state = kFrameState then
        (if IsJSFunctionType (frame_type_of (operator (g ! frame_state))) then
           (if wrap_int (level + 1) > FLAG_max_inlining_levels cfg then Some False
            else Reduce_levels cfg g (GetFrameStateInput g frame_state) (wrap_int (level + 1)))
         else Reduce_levels cfg g (GetFrameStateInput g frame_state) level)
      else Some True)"

declare Reduce_levels.simps [code]

section \<open>Metadata duplication\<close>

text \<open>
  The loop of \<^verbatim>\<open>CollectStateValuesOwnedUses\<close> from input \<open>i\<close> on. The buffer of uses and
  its fill count are the list \<open>uses\<close>. The recursive call on a nested state-values node
  starts with that function's own test of the use count.
\<close>

partial_function (option) CollectStateValuesOwnedUses_loop ::
  "'f Graph \<Rightarrow> nat \<Rightarrow> nat \<Rightarrow> nat \<Rightarrow> (nat \<times> nat) list \<Rightarrow> nat
     \<Rightarrow> (bool \<times> (nat \<times> nat) list) option" where
  "CollectStateValuesOwnedUses_loop g nd state_values i uses max_uses =
     (if i < InputCount g state_values then
        (let input = InputAt g state_values i in
         if opcode g input = kStateValues then
           do {
             (ok, uses') \<leftarrow>
               (if UseCount g input > 1 then Some (True, uses)
                else CollectStateValuesOwnedUses_loop g nd input 0 uses max_uses);
             if \<not> ok then Some (False, uses')
             else CollectStateValuesOwnedUses_loop g nd state_values (i + 1) uses' max_uses
           }
         else if input = nd then
           (if length uses \<ge> max_uses then Some (False, uses)
            else CollectStateValuesOwnedUses_loop g nd state_values (i + 1)
                   (uses @ [(state_values, i)]) max_uses)
         else CollectStateValuesOwnedUses_loop g nd state_values (i + 1) uses max_uses)
      else Some (True, uses))"

declare CollectStateValuesOwnedUses_loop.simps [code]

definition CollectStateValuesOwnedUses ::
  "'f Graph \<Rightarrow> nat \<Rightarrow> nat \<Rightarrow> (nat \<times> nat) list \<Rightarrow> nat \<Rightarrow> (bool \<times> (nat \<times> nat) list) option" where
  "CollectStateValuesOwnedUses g nd state_values uses max_uses =
     (if UseCount g state_values > 1 then Some (True, uses)
      else CollectStateValuesOwnedUses_loop g nd state_values 0 uses max_uses)"

definition CollectFrameStateUniqueUses ::
  "'f Graph \<Rightarrow> nat \<Rightarrow> nat \<Rightarrow> (nat \<times> nat) list \<Rightarrow> nat \<Rightarrow> (bool \<times> (nat \<times> nat) list) option" where
  "CollectFrameStateUniqueUses g nd frame_state uses max_uses =
     (if UseCount g frame_state > 1 then Some (True, uses)
      else if InputAt g frame_state kFrameStateStackInput = nd \<and> length uses \<ge> max_uses
        then Some (False, uses)
      else
        (let uses1 = (if InputAt g frame_state kFrameStateStackInput = nd
                      then uses @ [(frame_state, kFrameStateStackInput)] else uses)
         in do {
           (ok, uses2) \<leftarrow> CollectStateValuesOwnedUses g nd
                             (InputAt g frame_state kFrameStateLocalsInput) uses1 max_uses;
           if \<not> ok then Some (False, uses2) else Some (True, uses2)
         }))"

text \<open>
  The loop of \<^verbatim>\<open>DuplicateStateValuesAndRename\<close> from input \<open>i\<close> on; \<open>copy\<close> is the
  node being written to, if there is one yet. For an input equal to \<open>from\<close> the source
  sets \<^verbatim>\<open>processed = from\<close>.
\<close>

partial_function (option) DuplicateStateValuesAndRename_loop ::
  "'f Graph \<Rightarrow> nat \<Rightarrow> nat \<Rightarrow> nat \<Rightarrow> StateCloneMode \<Rightarrow> nat \<Rightarrow> nat option
     \<Rightarrow> (nat option \<times> 'f Graph) option" where
  "DuplicateStateValuesAndRename_loop g state_values from to clone_mode i copy =
     (if i < InputCount g state_values then
        (let input = InputAt g state_values i in
         do {
           (processed, g1) \<leftarrow>
             (if opcode g input = kStateValues then
                (if UseCount g input > 1 then Some (input, g)
                 else do {
                   (c, g') \<leftarrow> DuplicateStateValuesAndRename_loop g input from to clone_mode 0
                                (if clone_mode = kChangeInPlace then Some input else None);
                   Some (case c of Some n \<Rightarrow> n | None \<Rightarrow> input, g')
                 })
              else if input = from then Some (from, g)
              else Some (input, g));
           if processed \<noteq> input then
             (case copy of
                None \<Rightarrow>
                  (let (c, g2) = CloneNode g1 state_values in
                   DuplicateStateValuesAndRename_loop (ReplaceInput g2 c i processed)
                     state_values from to clone_mode (i + 1) (Some c))
              | Some c \<Rightarrow>
                  DuplicateStateValuesAndRename_loop (ReplaceInput g1 c i processed)
                    state_values from to clone_mode (i + 1) (Some c))
           else DuplicateStateValuesAndRename_loop g1 state_values from to clone_mode (i + 1) copy
         })
      else Some (copy, g))"

declare DuplicateStateValuesAndRename_loop.simps [code]

definition DuplicateStateValuesAndRename ::
  "'f Graph \<Rightarrow> nat \<Rightarrow> nat \<Rightarrow> nat \<Rightarrow> StateCloneMode \<Rightarrow> (nat \<times> 'f Graph) option" where
  "DuplicateStateValuesAndRename g state_values from to clone_mode =
     (if UseCount g state_values > 1 then Some (state_values, g)
      else do {
        (c, g') \<leftarrow> DuplicateStateValuesAndRename_loop g state_values from to clone_mode 0
                     (if clone_mode = kChangeInPlace then Some state_values else None);
        Some (case c of Some n \<Rightarrow> n | None \<Rightarrow> state_values, g')
      })"

text \<open>
  \<^verbatim>\<open>if (!copy) copy = graph()->CloneNode(node); copy->ReplaceInput(i, v);\<close>
\<close>

definition ReplaceInputOfCopy ::
  "'f Graph \<Rightarrow> nat \<Rightarrow> nat option \<Rightarrow> nat \<Rightarrow> nat \<Rightarrow> nat option \<times> 'f Graph" where
  "ReplaceInputOfCopy g nd copy i v =
     (case copy of
        None \<Rightarrow> (let (c, g') = CloneNode g nd in (Some c, ReplaceInput g' c i v))
      | Some c \<Rightarrow> (Some c, ReplaceInput g c i v))"

definition DuplicateFrameStateAndRename ::
  "'f Graph \<Rightarrow> nat \<Rightarrow> nat \<Rightarrow> nat \<Rightarrow> StateCloneMode \<Rightarrow> (nat \<times> 'f Graph) option" where
  "DuplicateFrameStateAndRename g frame_state from to clone_mode =
     (if UseCount g frame_state > 1 then Some (frame_state, g)
      else
        (let copy = (if clone_mode = kChangeInPlace then Some frame_state else None);
             (copy1, g1) =
               (if InputAt g frame_state kFrameStateStackInput = from
                then ReplaceInputOfCopy g frame_state copy kFrameStateStackInput to
                else (copy, g));
             locals = InputAt g1 frame_state kFrameStateLocalsInput
         in do {
           (new_locals, g2) \<leftarrow> DuplicateStateValuesAndRename g1 locals from to clone_mode;
           let (copy2, g3) =
               (if new_locals \<noteq> locals
                then ReplaceInputOfCopy g2 frame_state copy1 kFrameStateLocalsInput new_locals
                else (copy1, g2));
           Some (case copy2 of Some n \<Rightarrow> n | None \<Rightarrow> frame_state, g3)
         }))"

section \<open>Dispatch builder\<close>

text \<open>
  The loop of \<^verbatim>\<open>TryReuseDispatch\<close> that clones the call for each input of the merge
  (lines 420 to 449), over the remaining indices. \<^verbatim>\<open>calls[i]\<close> and \<^verbatim>\<open>if_successes[i]\<close>
  receive the same node, so one list is returned for both. The argument \<open>checkpoint\<close>
  is the checkpoint with its frame state \<^verbatim>\<open>checkpoint_state\<close>, when there is one.
\<close>

fun TryReuseDispatch_calls ::
  "'f Graph \<Rightarrow> nat \<Rightarrow> nat \<Rightarrow> nat \<Rightarrow> nat \<Rightarrow> (nat \<times> nat) option \<Rightarrow> nat \<Rightarrow> nat \<Rightarrow> nat list
     \<Rightarrow> nat list \<Rightarrow> nat \<Rightarrow> ('f Graph \<times> nat list) option" where
  "TryReuseDispatch_calls g nd callee effect_phi merge checkpoint frame_state num_calls [] ins input_count =
     Some (g, [])"
| "TryReuseDispatch_calls g nd callee effect_phi merge checkpoint frame_state num_calls (i # rest) ins input_count =
     (let target = InputAt g callee i;
          effect = InputAt g effect_phi i;
          control = InputAt g merge i;
          clone_mode = (if i = num_calls - 1 then kChangeInPlace else kCloneState)
      in do {
        (effect1, g1) \<leftarrow>
          (case checkpoint of
             Some (cp, checkpoint_state) \<Rightarrow> do {
               (new_checkpoint_state, ga) \<leftarrow>
                 DuplicateFrameStateAndRename g checkpoint_state callee target clone_mode;
               Some (NewNode ga (operator (ga ! cp)) [new_checkpoint_state, effect, control])
             }
           | None \<Rightarrow> Some (effect, g));
        (new_lazy_frame_state, g2) \<leftarrow>
          DuplicateFrameStateAndRename g1 frame_state callee target clone_mode;
        let ins' = ins[0 := target, input_count - 3 := new_lazy_frame_state,
                       input_count - 2 := effect1, input_count - 1 := control];
        let (call, g3) = NewNode g2 (operator (g2 ! nd)) ins';
        (g', calls) \<leftarrow> TryReuseDispatch_calls g3 nd callee effect_phi merge checkpoint
                           frame_state num_calls rest ins' input_count;
        Some (g', call # calls)
      })"

text \<open>
  The end of \<^verbatim>\<open>TryReuseDispatch\<close> (lines 451 to 460): the control inputs are replaced by
  the dead node and the merge is killed. The canonical dead node is looked up once; the
  later lookups of the source return the same node.
\<close>

definition TryReuseDispatch_kill ::
  "'f Graph \<Rightarrow> nat \<Rightarrow> nat \<Rightarrow> nat \<Rightarrow> nat \<Rightarrow> nat option \<Rightarrow> nat \<Rightarrow> nat \<Rightarrow> 'f Graph" where
  "TryReuseDispatch_kill g nd callee effect_phi merge checkpoint num_calls input_count =
     (let (dead, g0) = CachedNode g Dead;
          g1 = ReplaceInput g0 nd (input_count - 1) dead;
          g2 = ReplaceInput g1 callee num_calls dead;
          g3 = ReplaceInput g2 effect_phi num_calls dead;
          g4 = (case checkpoint of Some cp \<Rightarrow> ReplaceInput g3 cp 2 dead | None \<Rightarrow> g3)
      in Kill g4 merge)"

definition kMaxUses :: nat where "kMaxUses = 8"

text \<open>
  \<^verbatim>\<open>TryReuseDispatch\<close>. The result is whether the dispatch was reused, the graph, and the
  specialized calls. The test of the uses of the callee (lines 403 to 416) accepts an edge
  when it is the target input of the call or one of the collected uses.
\<close>

definition TryReuseDispatch ::
  "'f Graph \<Rightarrow> nat \<Rightarrow> nat \<Rightarrow> 'f Candidate \<Rightarrow> nat list \<Rightarrow> nat
     \<Rightarrow> (bool \<times> 'f Graph \<times> nat list) option" where
  "TryReuseDispatch g nd callee candidate ins input_count =
     (let num_calls = num_functions candidate;
          merge = GetControlInput g callee
      in
      if GetControlInput g nd \<noteq> merge then Some (False, g, [])
      else
        (let effect0 = GetEffectInput g nd;
             checkpoint = (if opcode g effect0 = kCheckpoint then Some effect0 else None)
         in
         if checkpoint \<noteq> None \<and> GetControlInput g effect0 \<noteq> merge then Some (False, g, [])
         else
           (let effect = (if checkpoint \<noteq> None then GetEffectInput g effect0 else effect0) in
            if opcode g effect \<noteq> kEffectPhi then Some (False, g, [])
            else if GetControlInput g effect \<noteq> merge then Some (False, g, [])
            else do {
              (ok1, uses1) \<leftarrow>
                (case checkpoint of
                   Some cp \<Rightarrow> CollectFrameStateUniqueUses g callee (InputAt g cp 0) [] kMaxUses
                 | None \<Rightarrow> Some (True, []));
              if \<not> ok1 then Some (False, g, [])
              else do {
                let frame_state = GetFrameStateInput g nd;
                (ok2, replaceable_uses) \<leftarrow>
                  CollectFrameStateUniqueUses g callee frame_state uses1 kMaxUses;
                if \<not> ok2 then Some (False, g, [])
                else if \<not> list_all (\<lambda>edge. edge = (nd, 0) \<or> edge \<in> set replaceable_uses)
                                     (use_edges g callee)
                  then Some (False, g, [])
                else do {
                  (g1, calls) \<leftarrow> TryReuseDispatch_calls g nd callee effect merge
                                     (map_option (\<lambda>cp. (cp, InputAt g cp 0)) checkpoint)
                                     frame_state num_calls [0..<num_calls] ins input_count;
                  Some (True,
                        TryReuseDispatch_kill g1 nd callee effect merge checkpoint
                          num_calls input_count,
                        calls)
                }
              }
            })))"

text \<open>
  The loop of \<^verbatim>\<open>CreateOrReuseDispatch\<close> that builds a new dispatch (lines 477 to 499),
  over the remaining targets. The current target is the last one when no target remains
  after it. Again \<^verbatim>\<open>calls[i]\<close> and \<^verbatim>\<open>if_successes[i]\<close> end as the same node.
\<close>

fun CreateDispatch ::
  "'f Graph \<Rightarrow> nat \<Rightarrow> nat \<Rightarrow> Target list \<Rightarrow> nat \<Rightarrow> nat list \<Rightarrow> nat
     \<Rightarrow> 'f Graph \<times> nat list" where
  "CreateDispatch g nd callee [] fallthrough_control ins input_count = (g, [])"
| "CreateDispatch g nd callee (f # rest) fallthrough_control ins input_count =
     (let (target, g1) = CachedNode g (HeapConstant (target_object f)) in
      if rest \<noteq> [] then
        (let (check, g2) = NewNode g1 ReferenceEqual [callee, target];
             (branch, g3) = NewNode g2 Branch [check, fallthrough_control];
             (if_false, g4) = NewNode g3 IfFalse [branch];
             (if_true, g5) = NewNode g4 IfTrue [branch];
             ins' = ins[0 := target, input_count - 1 := if_true];
             (call, g6) = NewNode g5 (operator (g5 ! nd)) ins';
             (g', calls) = CreateDispatch g6 nd callee rest if_false ins' input_count
         in (g', call # calls))
      else
        (let ins' = ins[0 := target, input_count - 1 := fallthrough_control];
             (call, g2) = NewNode g1 (operator (g1 ! nd)) ins';
             (g', calls) = CreateDispatch g2 nd callee rest fallthrough_control ins' input_count
         in (g', call # calls)))"

definition CreateOrReuseDispatch ::
  "'f Graph \<Rightarrow> nat \<Rightarrow> nat \<Rightarrow> 'f Candidate \<Rightarrow> nat list \<Rightarrow> nat
     \<Rightarrow> ('f Graph \<times> nat list) option" where
  "CreateOrReuseDispatch g nd callee candidate ins input_count =
     do {
       (reused, g1, calls) \<leftarrow> TryReuseDispatch g nd callee candidate ins input_count;
       if reused then Some (g1, calls)
       else Some (CreateDispatch g1 nd callee (target_functions candidate)
                    (GetControlInput g1 nd) ins input_count)
     }"

section \<open>Inline substitution\<close>

text \<open>
  One round of the last loop of \<^verbatim>\<open>InlineCandidate\<close> (lines 571 to 585), for the
  specialized call \<open>call\<close> of target \<open>f\<close> with inlinability flag \<open>can\<close>.
\<close>

definition InlineCandidate_call ::
  "'f Config \<Rightarrow> bool \<Rightarrow> nat \<Rightarrow> Target \<Rightarrow> bool \<Rightarrow> 'f Heuristic \<Rightarrow> 'f Heuristic" where
  "InlineCandidate_call cfg force_inl call f can st =
     (if force_inl
         \<or> (can \<and> cumulative_count st < FLAG_max_inlined_bytecode_size_cumulative cfg)
      then
        (let (reduction, g') = ReduceJSCall cfg (graph st) call in
         if Changed reduction then
           st\<lparr>graph := Kill g' call,
              cumulative_count :=
                wrap_int (cumulative_count st + int (bytecode_array_length (target_shared f)))\<rparr>
         else st\<lparr>graph := g'\<rparr>)
      else st)"

fun InlineCandidate_calls ::
  "'f Config \<Rightarrow> bool \<Rightarrow> 'f Candidate \<Rightarrow> nat list \<Rightarrow> nat list \<Rightarrow> 'f Heuristic \<Rightarrow> 'f Heuristic" where
  "InlineCandidate_calls cfg force_inl candidate calls [] st = st"
| "InlineCandidate_calls cfg force_inl candidate calls (i # rest) st =
     InlineCandidate_calls cfg force_inl candidate calls rest
       (InlineCandidate_call cfg force_inl (calls ! i) (target_functions candidate ! i)
          (can_inline_function candidate ! i) st)"

text \<open>
  The projections of the specialized calls when the original call has an exception edge
  (lines 540 to 544): an \<^verbatim>\<open>IfSuccess\<close> and an \<^verbatim>\<open>IfException\<close> node for each call.
\<close>

fun InlineCandidate_projections :: "'f Graph \<Rightarrow> nat list \<Rightarrow> 'f Graph \<times> nat list \<times> nat list" where
  "InlineCandidate_projections g [] = (g, [], [])"
| "InlineCandidate_projections g (call # rest) =
     (let (if_success, g1) = NewNode g IfSuccess [call];
          (if_exception, g2) = NewNode g1 IfException [call, call];
          (g', if_successes, if_exceptions) = InlineCandidate_projections g2 rest
      in (g', if_success # if_successes, if_exception # if_exceptions))"

text \<open>
  The expansion of a call with several targets in \<^verbatim>\<open>InlineCandidate\<close> (lines 518 to 568):
  the call is expanded to a dispatch over specialized calls, and the exception edge and
  the call itself are replaced by joins of the specialized calls. The result is the value
  that replaces the call, the specialized calls and the graph.
\<close>

definition InlineCandidate_expand ::
  "'f Config \<Rightarrow> 'f Candidate \<Rightarrow> 'f Graph \<Rightarrow> (nat \<times> nat list \<times> 'f Graph) option" where
  "InlineCandidate_expand cfg candidate g =
     (let num_calls = num_functions candidate;
          nd = node candidate;
          callee = GetValueInput g nd 0;
          input_count = InputCount g nd;
          ins = map (InputAt g nd) [0..<input_count]
      in do {
        (g1, calls) \<leftarrow> CreateOrReuseDispatch g nd callee candidate ins input_count;
        let (g2, if_successes) =
            (case IsExceptionalCall cfg g1 nd of
               Some if_exception \<Rightarrow>
                 (let (ga, if_successes, if_exceptions) = InlineCandidate_projections g1 calls;
                      (exception_control, gb) = NewNode ga (Merge num_calls) if_exceptions;
                      (exception_effect, gc) =
                        NewNode gb (EffectPhi num_calls) (if_exceptions @ [exception_control]);
                      (exception_value, gd) =
                        NewNode gc (Phi num_calls) (if_exceptions @ [exception_control])
                  in (ReplaceWithValue cfg gd if_exception exception_value exception_effect
                        exception_control,
                      if_successes))
             | None \<Rightarrow> (g1, calls));
        let (control, g3) = NewNode g2 (Merge num_calls) if_successes;
        let (effect, g4) = NewNode g3 (EffectPhi num_calls) (calls @ [control]);
        let (val, g5) = NewNode g4 (Phi num_calls) (calls @ [control]);
        Some (val, calls, ReplaceWithValue cfg g5 nd val effect control)
      })"

text \<open>
  \<^verbatim>\<open>InlineCandidate\<close>. With one target the call is handed to the inliner as it is. With
  several the call is first expanded, and every specialized call goes through the loop
  above.
\<close>

definition InlineCandidate ::
  "'f Config \<Rightarrow> 'f Candidate \<Rightarrow> bool \<Rightarrow> 'f Heuristic \<Rightarrow> (Reduction \<times> 'f Heuristic) option" where
  "InlineCandidate cfg candidate force_inl st =
     (let num_calls = num_functions candidate;
          nd = node candidate
      in
      if num_calls = 1 then
        (let sh = target_shared (target_functions candidate ! 0);
             (reduction, g') = ReduceJSCall cfg (graph st) nd
         in Some (reduction,
                  if Changed reduction
                  then st\<lparr>graph := g',
                          cumulative_count :=
                            wrap_int (cumulative_count st + int (bytecode_array_length sh))\<rparr>
                  else st\<lparr>graph := g'\<rparr>))
      else
        do {
          (val, calls, g6) \<leftarrow> InlineCandidate_expand cfg candidate (graph st);
          Some (Replace val,
                InlineCandidate_calls cfg force_inl candidate calls [0..<num_calls]
                  (st\<lparr>graph := g6\<rparr>))
        })"

section \<open>The reducer and the drain step\<close>

text \<open>\<^verbatim>\<open>JSInliningHeuristic::Reduce\<close>.\<close>

definition Reduce ::
  "('f::linorder) Config \<Rightarrow> nat \<Rightarrow> 'f Heuristic \<Rightarrow> (Reduction \<times> 'f Heuristic) option" where
  "Reduce cfg nd st =
     (let g = graph st in
      if \<not> IsInlineeOpcode (opcode g nd) then Some (NoChange, st)
      else if nd \<in> seen st then Some (NoChange, st)
      else
        (let st1 = st\<lparr>seen := insert nd (seen st)\<rparr>;
             callee = InputAt g nd 0;
             fs = CollectFunctions g callee (kMaxCallPolymorphism cfg)
         in
         if length fs = 0 then Some (NoChange, st1)
         else if length fs > 1 \<and> \<not> FLAG_polymorphic_inlining cfg then Some (NoChange, st1)
         else
           (let (can_inline, force_inl, small_inline, sizes, flags) =
                  Reduce_targets cfg fs (False, True, True, 0, []);
                candidate = \<lparr>node = nd, target_functions = fs, can_inline_function = flags,
                             frequency = Unknown, total_size = sizes\<rparr>
            in
            if force_inl then InlineCandidate cfg candidate True st1
            else if \<not> can_inline then Some (NoChange, st1)
            else do {
              within \<leftarrow> Reduce_levels cfg g (GetFrameStateInput g nd) 0;
              if \<not> within then Some (NoChange, st1)
              else
                (let candidate = candidate\<lparr>frequency := frequency_of (operator (g ! nd))\<rparr> in
                 case mode st1 of
                   kRestrictedInlining \<Rightarrow> Some (NoChange, st1)
                 | kStressInlining \<Rightarrow> InlineCandidate cfg candidate False st1
                 | kGeneralInlining \<Rightarrow>
                     if (case frequency candidate of
                           Known v \<Rightarrow> v < FLAG_min_inlining_frequency cfg
                         | Unknown \<Rightarrow> False)
                     then Some (NoChange, st1)
                     else if small_inline
                          \<and> cumulative_count st1 \<le> FLAG_max_inlined_bytecode_size_absolute cfg
                       then InlineCandidate cfg candidate True st1
                     else Some (NoChange,
                                st1\<lparr>candidates := candidates_insert candidate (candidates st1)\<rparr>))
            })))"

text \<open>
  The loop of \<^verbatim>\<open>JSInliningHeuristic::Finalize\<close> over the backlog \<open>cs\<close>, which is the
  member \<^verbatim>\<open>candidates_\<close>: the substitution does not touch that member, so the backlog
  after a round is the rest of the list.
\<close>

fun Finalize_loop :: "'f Config \<Rightarrow> 'f Candidate list \<Rightarrow> 'f Heuristic \<Rightarrow> 'f Heuristic option" where
  "Finalize_loop cfg [] st = Some st"
| "Finalize_loop cfg (candidate # rest) st0 =
     (let st = st0\<lparr>candidates := rest\<rparr>;
          total = wrap_int (cumulative_count st + reserved_size cfg (total_size candidate))
      in
      if total > FLAG_max_inlined_bytecode_size_cumulative cfg then Finalize_loop cfg rest st
      else if \<not> IsDead (graph st) (node candidate) then
        do {
          (reduction, st') \<leftarrow> InlineCandidate cfg candidate False st;
          if Changed reduction then Some st' else Finalize_loop cfg rest st'
        }
      else Finalize_loop cfg rest st)"

definition Finalize :: "'f Config \<Rightarrow> 'f Heuristic \<Rightarrow> 'f Heuristic option" where
  "Finalize cfg st =
     (if candidates st = [] then Some st else Finalize_loop cfg (candidates st) st)"

text \<open>A sequence of operations of the fixpoint driver on the heuristic.\<close>

datatype Operation = DoReduce nat | DoFinalize

fun run :: "('f::linorder) Config \<Rightarrow> Operation list \<Rightarrow> 'f Heuristic \<Rightarrow> 'f Heuristic option" where
  "run cfg [] st = Some st"
| "run cfg (DoReduce nd # ops) st =
     do { (reduction, st') \<leftarrow> Reduce cfg nd st; run cfg ops st' }"
| "run cfg (DoFinalize # ops) st =
     do { st' \<leftarrow> Finalize cfg st; run cfg ops st' }"

section \<open>The sizes added to the counter\<close>

text \<open>
  The specification says of the counter that it "increases by exactly the inlined target's
  size on every successful substitution, by zero otherwise". The functions of this section
  follow these words, to be compared with the counter of the operations: they add up, in
  the natural numbers, the bytecode sizes of the targets whose substitution the inliner
  reports as a change, over one round of the loop over the specialized calls, over that
  loop, over a substitution, over a Reduce, over the drain step and over a sequence of
  operations. \<open>Reduce_substitution\<close> is the candidate that Reduce substitutes at once, with
  the force flag, when it substitutes one; \<open>inlinable_size\<close> is the aggregate size of the
  inlinable targets, as an \<^verbatim>\<open>int\<close>.
\<close>

definition InlineCandidate_call_added ::
  "'f Config \<Rightarrow> bool \<Rightarrow> nat \<Rightarrow> Target \<Rightarrow> bool \<Rightarrow> 'f Heuristic \<Rightarrow> nat" where
  "InlineCandidate_call_added cfg force_inl call f can st =
     (if (force_inl
          \<or> (can \<and> cumulative_count st < FLAG_max_inlined_bytecode_size_cumulative cfg))
         \<and> Changed (fst (ReduceJSCall cfg (graph st) call))
      then bytecode_array_length (target_shared f) else 0)"

fun InlineCandidate_calls_added ::
  "'f Config \<Rightarrow> bool \<Rightarrow> 'f Candidate \<Rightarrow> nat list \<Rightarrow> nat list \<Rightarrow> 'f Heuristic \<Rightarrow> nat" where
  "InlineCandidate_calls_added cfg force_inl candidate calls [] st = 0"
| "InlineCandidate_calls_added cfg force_inl candidate calls (i # rest) st =
     InlineCandidate_call_added cfg force_inl (calls ! i) (target_functions candidate ! i)
       (can_inline_function candidate ! i) st
     + InlineCandidate_calls_added cfg force_inl candidate calls rest
         (InlineCandidate_call cfg force_inl (calls ! i) (target_functions candidate ! i)
            (can_inline_function candidate ! i) st)"

definition InlineCandidate_added ::
  "'f Config \<Rightarrow> 'f Candidate \<Rightarrow> bool \<Rightarrow> 'f Heuristic \<Rightarrow> nat" where
  "InlineCandidate_added cfg candidate force_inl st =
     (if num_functions candidate = 1 then
        (if Changed (fst (ReduceJSCall cfg (graph st) (node candidate)))
         then bytecode_array_length (target_shared (target_functions candidate ! 0)) else 0)
      else
        (case InlineCandidate_expand cfg candidate (graph st) of
           None \<Rightarrow> 0
         | Some (val, calls, g) \<Rightarrow>
             InlineCandidate_calls_added cfg force_inl candidate calls
               [0..<num_functions candidate] (st\<lparr>graph := g\<rparr>)))"

definition inlinable_size :: "'f Config \<Rightarrow> Target list \<Rightarrow> int" where
  "inlinable_size cfg fs =
     wrap_int (sum_list (map (\<lambda>f. int (bytecode_array_length (target_shared f)))
                          (filter (\<lambda>f. CanInlineFunction cfg (target_shared f)) fs)))"

definition Reduce_substitution ::
  "('f::linorder) Config \<Rightarrow> nat \<Rightarrow> 'f Heuristic \<Rightarrow> ('f Candidate \<times> bool) option" where
  "Reduce_substitution cfg nd st =
     (let g = graph st;
          fs = CollectFunctions g (InputAt g nd 0) (kMaxCallPolymorphism cfg);
          candidate = \<lparr>node = nd, target_functions = fs,
                       can_inline_function = map (\<lambda>f. CanInlineFunction cfg (target_shared f)) fs,
                       frequency = Unknown, total_size = inlinable_size cfg fs\<rparr>
      in
      if \<not> IsInlineeOpcode (opcode g nd) \<or> nd \<in> seen st \<or> fs = []
         \<or> (length fs > 1 \<and> \<not> FLAG_polymorphic_inlining cfg)
      then None
      else if list_all (\<lambda>f. force_inline (target_shared f)) fs then Some (candidate, True)
      else if \<not> list_ex (\<lambda>f. CanInlineFunction cfg (target_shared f)) fs then None
      else if Reduce_levels cfg g (GetFrameStateInput g nd) 0 \<noteq> Some True then None
      else
        (let candidate = candidate\<lparr>frequency := frequency_of (operator (g ! nd))\<rparr> in
         case mode st of
           kRestrictedInlining \<Rightarrow> None
         | kStressInlining \<Rightarrow> Some (candidate, False)
         | kGeneralInlining \<Rightarrow>
             if (case frequency candidate of
                   Known v \<Rightarrow> v < FLAG_min_inlining_frequency cfg
                 | Unknown \<Rightarrow> False)
             then None
             else if list_all (\<lambda>f. IsSmallInlineFunction cfg (target_shared f)) fs
                     \<and> cumulative_count st \<le> FLAG_max_inlined_bytecode_size_absolute cfg
               then Some (candidate, True)
             else None))"

definition Reduce_added :: "('f::linorder) Config \<Rightarrow> nat \<Rightarrow> 'f Heuristic \<Rightarrow> nat" where
  "Reduce_added cfg nd st =
     (case Reduce_substitution cfg nd st of
        None \<Rightarrow> 0
      | Some (candidate, force_inl) \<Rightarrow>
          InlineCandidate_added cfg candidate force_inl (st\<lparr>seen := insert nd (seen st)\<rparr>))"

fun Finalize_loop_added :: "'f Config \<Rightarrow> 'f Candidate list \<Rightarrow> 'f Heuristic \<Rightarrow> nat" where
  "Finalize_loop_added cfg [] st = 0"
| "Finalize_loop_added cfg (candidate # rest) st0 =
     (let st = st0\<lparr>candidates := rest\<rparr> in
      if wrap_int (cumulative_count st + reserved_size cfg (total_size candidate))
           > FLAG_max_inlined_bytecode_size_cumulative cfg
         \<or> IsDead (graph st) (node candidate)
      then Finalize_loop_added cfg rest st
      else
        InlineCandidate_added cfg candidate False st
        + (case InlineCandidate cfg candidate False st of
             None \<Rightarrow> 0
           | Some (reduction, st') \<Rightarrow>
               if Changed reduction then 0 else Finalize_loop_added cfg rest st'))"

definition Finalize_added :: "'f Config \<Rightarrow> 'f Heuristic \<Rightarrow> nat" where
  "Finalize_added cfg st = Finalize_loop_added cfg (candidates st) st"

fun run_added :: "('f::linorder) Config \<Rightarrow> Operation list \<Rightarrow> 'f Heuristic \<Rightarrow> nat" where
  "run_added cfg [] st = 0"
| "run_added cfg (DoReduce nd # ops) st =
     Reduce_added cfg nd st
     + (case Reduce cfg nd st of None \<Rightarrow> 0 | Some (reduction, st') \<Rightarrow> run_added cfg ops st')"
| "run_added cfg (DoFinalize # ops) st =
     Finalize_added cfg st
     + (case Finalize cfg st of None \<Rightarrow> 0 | Some st' \<Rightarrow> run_added cfg ops st')"

section \<open>Properties of the operations\<close>

subsection \<open>The arithmetic of int\<close>

text \<open>An integer is an \<^verbatim>\<open>int\<close> when it lies between \<^verbatim>\<open>kMinInt\<close> and \<^verbatim>\<open>kMaxInt\<close>.\<close>

definition is_int :: "int \<Rightarrow> bool" where
  "is_int x = (kMinInt \<le> x \<and> x \<le> kMaxInt)"

lemma wrap_int_id: "is_int x \<Longrightarrow> wrap_int x = x"
  by (simp add: wrap_int_def is_int_def kMinInt_def kMaxInt_def)

lemma is_int_wrap_int: "is_int (wrap_int x)"
  by (simp add: wrap_int_def is_int_def kMinInt_def kMaxInt_def)

lemma wrap_int_add: "wrap_int (wrap_int a + b) = wrap_int (a + b)"
  by (simp add: wrap_int_def mod_simps algebra_simps)

subsection \<open>The order of the backlog\<close>

lemma CandidateCompare_irrefl: "\<not> CandidateCompare a a"
  by (simp add: CandidateCompare_def split: CallFrequency.splits)

lemma CandidateCompare_trans:
  "CandidateCompare a b \<Longrightarrow> CandidateCompare b c \<Longrightarrow> CandidateCompare a c"
  by (auto simp: CandidateCompare_def split: CallFrequency.splits if_splits)

lemma CandidateCompare_equiv_iff:
  "(\<not> CandidateCompare a b \<and> \<not> CandidateCompare b a) \<longleftrightarrow>
     (frequency a = frequency b \<and> node a = node b)"
  by (auto simp: CandidateCompare_def split: CallFrequency.splits if_splits)

lemma set_candidates_insert: "set (candidates_insert c xs) \<subseteq> insert c (set xs)"
  by (induction xs) auto



lemma distinct_candidates_insert:
  "distinct (map node xs) \<Longrightarrow> node c \<notin> node ` set xs \<Longrightarrow>
     distinct (map node (candidates_insert c xs))"
proof (induction xs)
  case Nil
  then show ?case by simp
next
  case (Cons x xs)
  have "node ` set (candidates_insert c xs) \<subseteq> insert (node c) (node ` set xs)"
    using set_candidates_insert[of c xs] by auto
  with Cons show ?case by auto
qed

subsection \<open>What a substitution keeps and what it adds\<close>

lemma InlineCandidate_call_keeps:
  "seen (InlineCandidate_call cfg fi call f can st) = seen st"
  "candidates (InlineCandidate_call cfg fi call f can st) = candidates st"
  "mode (InlineCandidate_call cfg fi call f can st) = mode st"
  by (simp_all add: InlineCandidate_call_def Let_def split: prod.splits)

lemma InlineCandidate_calls_keeps:
  "seen (InlineCandidate_calls cfg fi c calls is st) = seen st
   \<and> candidates (InlineCandidate_calls cfg fi c calls is st) = candidates st
   \<and> mode (InlineCandidate_calls cfg fi c calls is st) = mode st"
  by (induction "is" arbitrary: st) (simp_all add: InlineCandidate_call_keeps)

lemma InlineCandidate_keeps:
  assumes "InlineCandidate cfg c fi st = Some (r, st')"
  shows "seen st' = seen st \<and> candidates st' = candidates st \<and> mode st' = mode st"
  using assms
  by (auto simp: InlineCandidate_def Let_def InlineCandidate_calls_keeps
           split: if_splits prod.splits option.splits Option.bind_splits)

lemma InlineCandidate_call_delta:
  "cumulative_count (InlineCandidate_call cfg fi call f can st) =
     (if (fi \<or> (can \<and> cumulative_count st < FLAG_max_inlined_bytecode_size_cumulative cfg))
         \<and> Changed (fst (ReduceJSCall cfg (graph st) call))
      then wrap_int (cumulative_count st + int (bytecode_array_length (target_shared f)))
      else cumulative_count st)"
  by (simp add: InlineCandidate_call_def Let_def split: prod.splits)

lemma InlineCandidate_mono_delta:
  assumes "num_functions c = 1"
  shows "InlineCandidate cfg c fi st =
     Some (fst (ReduceJSCall cfg (graph st) (node c)),
           if Changed (fst (ReduceJSCall cfg (graph st) (node c)))
           then st\<lparr>graph := snd (ReduceJSCall cfg (graph st) (node c)),
                   cumulative_count :=
                     wrap_int (cumulative_count st
                       + int (bytecode_array_length (target_shared (target_functions c ! 0))))\<rparr>
           else st\<lparr>graph := snd (ReduceJSCall cfg (graph st) (node c))\<rparr>)"
  using assms by (simp add: InlineCandidate_def Let_def split: prod.splits)

lemma InlineCandidate_poly:
  assumes "num_functions c \<noteq> 1"
  shows "InlineCandidate cfg c fi st =
     (case InlineCandidate_expand cfg c (graph st) of
        None \<Rightarrow> None
      | Some (val, calls, g) \<Rightarrow>
          Some (Replace val,
                InlineCandidate_calls cfg fi c calls [0..<num_functions c] (st\<lparr>graph := g\<rparr>)))"
  using assms by (simp add: InlineCandidate_def Let_def split: option.splits)

lemma InlineCandidate_poly_loop:
  assumes "num_functions c \<noteq> 1" and "InlineCandidate cfg c fi st = Some (r, st')"
  shows "\<exists>val calls g. InlineCandidate_expand cfg c (graph st) = Some (val, calls, g)
           \<and> r = Replace val
           \<and> st' = InlineCandidate_calls cfg fi c calls [0..<num_functions c] (st\<lparr>graph := g\<rparr>)"
  using assms(2) unfolding InlineCandidate_poly[OF assms(1)]
  by (auto split: option.splits)

lemma InlineCandidate_calls_unchanged:
  assumes "\<forall>g n. \<not> Changed (fst (ReduceJSCall cfg g n))"
  shows "cumulative_count (InlineCandidate_calls cfg fi c calls is st) = cumulative_count st"
  using assms
  by (induction "is" arbitrary: st) (simp_all add: InlineCandidate_call_delta)

lemma InlineCandidate_unchanged:
  assumes "\<forall>g n. \<not> Changed (fst (ReduceJSCall cfg g n))"
    and "InlineCandidate cfg c fi st = Some (r, st')"
  shows "cumulative_count st' = cumulative_count st"
proof (cases "num_functions c = 1")
  case True
  from assms(2) assms(1) show ?thesis
    unfolding InlineCandidate_mono_delta[OF True] by auto
next
  case False
  from InlineCandidate_poly_loop[OF False assms(2)] obtain val calls g
    where "st' = InlineCandidate_calls cfg fi c calls [0..<num_functions c] (st\<lparr>graph := g\<rparr>)"
    by blast
  then show ?thesis using InlineCandidate_calls_unchanged[OF assms(1)] by simp
qed

lemma IsDead_Kill: "n < length g \<Longrightarrow> IsDead (Kill g n) n"
  by (simp add: IsDead_def Kill_def)

lemma TryReuseDispatch_calls_length:
  "TryReuseDispatch_calls g nd callee effect_phi merge checkpoint frame_state num_calls
     indices ins input_count = Some (g', calls) \<Longrightarrow> length calls = length indices"
proof (induction indices arbitrary: g ins g' calls)
  case Nil
  then show ?case by simp
next
  case (Cons i rest)
  from Cons.prems obtain g3 ins' call calls' where
    rec: "TryReuseDispatch_calls g3 nd callee effect_phi merge checkpoint frame_state
            num_calls rest ins' input_count = Some (g', calls')"
    and c: "calls = call # calls'"
    by (auto simp: Let_def split: Option.bind_splits prod.splits)
  from Cons.IH[OF rec] c show ?case by simp
qed

lemma TryReuseDispatch_length:
  assumes "TryReuseDispatch g nd callee candidate ins input_count = Some (True, g', calls)"
  shows "length calls = num_functions candidate"
proof -
  from assms obtain effect cp g1 where
    "TryReuseDispatch_calls g nd callee effect (GetControlInput g callee) cp
       (GetFrameStateInput g nd) (num_functions candidate) [0..<num_functions candidate]
       ins input_count = Some (g1, calls)"
    by (auto simp: TryReuseDispatch_def Let_def
             split: if_splits prod.splits Option.bind_splits)
  from TryReuseDispatch_calls_length[OF this] show ?thesis by simp
qed

lemma CreateDispatch_length:
  "CreateDispatch g nd callee fs ft ins input_count = (g', calls) \<Longrightarrow> length calls = length fs"
proof (induction fs arbitrary: g ft ins g' calls)
  case Nil
  then show ?case by simp
next
  case (Cons f rest)
  then show ?case
    by (auto simp: Let_def split: prod.splits if_splits)
qed

lemma CreateOrReuseDispatch_length:
  assumes "CreateOrReuseDispatch g nd callee candidate ins input_count = Some (g', calls)"
  shows "length calls = num_functions candidate"
proof -
  from assms obtain reused g1 calls1 where
    t: "TryReuseDispatch g nd callee candidate ins input_count = Some (reused, g1, calls1)"
    and r: "(if reused then Some (g1, calls1)
             else Some (CreateDispatch g1 nd callee (target_functions candidate)
                          (GetControlInput g1 nd) ins input_count)) = Some (g', calls)"
    by (auto simp: CreateOrReuseDispatch_def split: Option.bind_splits)
  show ?thesis
  proof (cases reused)
    case True
    with t r TryReuseDispatch_length[of g nd callee candidate ins input_count g1 calls1]
    show ?thesis by simp
  next
    case False
    with r have "CreateDispatch g1 nd callee (target_functions candidate)
                   (GetControlInput g1 nd) ins input_count = (g', calls)"
      by simp
    from CreateDispatch_length[OF this] show ?thesis by (simp add: num_functions_def)
  qed
qed

lemma InlineCandidate_expand_dispatch:
  assumes "InlineCandidate_expand cfg c g = Some (val, calls, g')"
  shows "\<exists>g1. CreateOrReuseDispatch g (node c) (GetValueInput g (node c) 0) c
                 (map (InputAt g (node c)) [0..<InputCount g (node c)])
                 (InputCount g (node c)) = Some (g1, calls)"
  using assms
  by (auto simp: InlineCandidate_expand_def Let_def
           split: prod.splits option.splits Option.bind_splits)

lemma InlineCandidate_expand_length:
  assumes "InlineCandidate_expand cfg c g = Some (val, calls, g')"
  shows "length calls = num_functions c"
  using InlineCandidate_expand_dispatch[OF assms] CreateOrReuseDispatch_length by blast

subsection \<open>What the reducer and the drain step keep\<close>

lemma Finalize_loop_keeps:
  "Finalize_loop cfg cs st = Some st' \<Longrightarrow>
     seen st' = seen st \<and> mode st' = mode st"
proof (induction cs arbitrary: st)
  case Nil
  then show ?case by simp
next
  case (Cons c rest)
  let ?st = "st\<lparr>candidates := rest\<rparr>"
  show ?case
  proof (cases "wrap_int (cumulative_count ?st + reserved_size cfg (total_size c))
                  > FLAG_max_inlined_bytecode_size_cumulative cfg
                \<or> IsDead (graph ?st) (node c)")
    case True
    then have "Finalize_loop cfg rest ?st = Some st'"
      using Cons.prems by (auto simp: Let_def split: if_splits)
    from Cons.IH[OF this] show ?thesis by simp
  next
    case False
    then obtain r st1 where ic: "InlineCandidate cfg c False ?st = Some (r, st1)"
      and rest: "(if Changed r then Some st1 else Finalize_loop cfg rest st1) = Some st'"
      using Cons.prems by (auto simp: Let_def split: Option.bind_splits)
    have k: "seen st1 = seen st \<and> mode st1 = mode st"
      using InlineCandidate_keeps[OF ic] by simp
    show ?thesis
    proof (cases "Changed r")
      case True
      with rest k show ?thesis by simp
    next
      case False
      with rest have "Finalize_loop cfg rest st1 = Some st'" by simp
      from Cons.IH[OF this] k show ?thesis by simp
    qed
  qed
qed

lemma Finalize_keeps:
  "Finalize cfg st = Some st' \<Longrightarrow>
     seen st' = seen st \<and> mode st' = mode st"
  using Finalize_loop_keeps[of cfg "candidates st" st st']
  by (auto simp: Finalize_def split: if_splits)

lemma Reduce_seen_id:
  "nd \<in> seen st \<Longrightarrow> Reduce cfg nd st = Some (NoChange, st)"
  by (simp add: Reduce_def Let_def)

lemma Reduce_keeps:
  assumes "Reduce cfg nd st = Some (r, st')"
  shows "seen st \<subseteq> seen st' \<and> mode st' = mode st
         \<and> (IsInlineeOpcode (opcode (graph st) nd) \<longrightarrow> nd \<in> seen st')"
proof -
  let ?st1 = "st\<lparr>seen := insert nd (seen st)\<rparr>"
  have ic: "seen st' = insert nd (seen st) \<and> mode st' = mode st
           "
    if a: "InlineCandidate cfg c fi ?st1 = Some (r, st')" for c fi
    using InlineCandidate_keeps[OF a] by auto
  show ?thesis
    using assms
    by (auto simp: Reduce_def Let_def dest!: ic
             split: if_splits prod.splits Option.bind_splits Mode.splits)
qed

lemma run_keeps:
  "run cfg ops st = Some st' \<Longrightarrow>
     seen st \<subseteq> seen st' \<and> mode st' = mode st"
proof (induction ops arbitrary: st)
  case Nil
  then show ?case by simp
next
  case (Cons x ops)
  show ?case
  proof (cases x)
    case (DoReduce nd)
    with Cons.prems obtain r st1 where r: "Reduce cfg nd st = Some (r, st1)"
      and rest: "run cfg ops st1 = Some st'"
      by (auto split: Option.bind_splits)
    from Cons.IH[OF rest] Reduce_keeps[OF r] show ?thesis by auto
  next
    case DoFinalize
    with Cons.prems obtain st1 where f: "Finalize cfg st = Some st1"
      and rest: "run cfg ops st1 = Some st'"
      by (auto split: Option.bind_splits)
    from Cons.IH[OF rest] Finalize_keeps[OF f] show ?thesis by auto
  qed
qed

lemma Finalize_eq_loop: "Finalize cfg st = Finalize_loop cfg (candidates st) st"
  by (simp add: Finalize_def)

lemma Finalize_loop_suffix:
  "candidates st = cs \<Longrightarrow> Finalize_loop cfg cs st = Some st' \<Longrightarrow>
     \<exists>k. candidates st' = drop k cs"
proof (induction cs arbitrary: st)
  case Nil
  then show ?case by simp
next
  case (Cons c rest)
  let ?st = "st\<lparr>candidates := rest\<rparr>"
  have step: "\<exists>k. candidates st' = drop k (c # rest)"
    if "candidates s = rest" "Finalize_loop cfg rest s = Some st'" for s
  proof -
    from Cons.IH[OF that] obtain k where "candidates st' = drop k rest" ..
    then have "candidates st' = drop (Suc k) (c # rest)" by simp
    then show ?thesis ..
  qed
  show ?case
  proof (cases "wrap_int (cumulative_count ?st + reserved_size cfg (total_size c))
                  > FLAG_max_inlined_bytecode_size_cumulative cfg
                \<or> IsDead (graph ?st) (node c)")
    case True
    then have "Finalize_loop cfg rest ?st = Some st'"
      using Cons.prems by (auto simp: Let_def split: if_splits)
    then show ?thesis using step[of ?st] by simp
  next
    case False
    then obtain r st1 where ic: "InlineCandidate cfg c False ?st = Some (r, st1)"
      and rest: "(if Changed r then Some st1 else Finalize_loop cfg rest st1) = Some st'"
      using Cons.prems by (auto simp: Let_def split: Option.bind_splits)
    have k: "candidates st1 = rest" using InlineCandidate_keeps[OF ic] by simp
    show ?thesis
    proof (cases "Changed r")
      case True
      with rest k have "candidates st' = drop (Suc 0) (c # rest)" by simp
      then show ?thesis ..
    next
      case False
      with rest have "Finalize_loop cfg rest st1 = Some st'" by simp
      then show ?thesis using step[OF k] by simp
    qed
  qed
qed




lemma Finalize_loop_unchanged:
  assumes "\<forall>g n. \<not> Changed (fst (ReduceJSCall cfg g n))"
  shows "Finalize_loop cfg cs st = Some st' \<Longrightarrow> cumulative_count st' = cumulative_count st"
proof (induction cs arbitrary: st)
  case Nil
  then show ?case by simp
next
  case (Cons c rest)
  let ?st = "st\<lparr>candidates := rest\<rparr>"
  show ?case
  proof (cases "wrap_int (cumulative_count ?st + reserved_size cfg (total_size c))
                  > FLAG_max_inlined_bytecode_size_cumulative cfg
                \<or> IsDead (graph ?st) (node c)")
    case True
    then have "Finalize_loop cfg rest ?st = Some st'"
      using Cons.prems by (auto simp: Let_def split: if_splits)
    from Cons.IH[OF this] show ?thesis by simp
  next
    case False
    then obtain r st1 where ic: "InlineCandidate cfg c False ?st = Some (r, st1)"
      and rest: "(if Changed r then Some st1 else Finalize_loop cfg rest st1) = Some st'"
      using Cons.prems by (auto simp: Let_def split: Option.bind_splits)
    have k: "cumulative_count st1 = cumulative_count st"
      using InlineCandidate_unchanged[OF assms ic] by simp
    show ?thesis
    proof (cases "Changed r")
      case True
      with rest k show ?thesis by simp
    next
      case False
      with rest have "Finalize_loop cfg rest st1 = Some st'" by simp
      from Cons.IH[OF this] k show ?thesis by simp
    qed
  qed
qed

lemma Reduce_unchanged:
  assumes "\<forall>g n. \<not> Changed (fst (ReduceJSCall cfg g n))"
    and "Reduce cfg nd st = Some (r, st')"
  shows "cumulative_count st' = cumulative_count st"
proof -
  let ?st1 = "st\<lparr>seen := insert nd (seen st)\<rparr>"
  have ic: "cumulative_count st' = cumulative_count st"
    if a: "InlineCandidate cfg c fi ?st1 = Some (r, st')" for c fi
    using InlineCandidate_unchanged[OF assms(1) a] by simp
  show ?thesis
    using assms(2)
    by (auto simp: Reduce_def Let_def dest!: ic
             split: if_splits prod.splits Option.bind_splits Mode.splits)
qed

lemma run_unchanged:
  assumes "\<forall>g n. \<not> Changed (fst (ReduceJSCall cfg g n))"
  shows "run cfg ops st = Some st' \<Longrightarrow> cumulative_count st' = cumulative_count st"
proof (induction ops arbitrary: st)
  case Nil
  then show ?case by simp
next
  case (Cons x ops)
  show ?case
  proof (cases x)
    case (DoReduce nd)
    with Cons.prems obtain r st1 where r: "Reduce cfg nd st = Some (r, st1)"
      and rest: "run cfg ops st1 = Some st'"
      by (auto split: Option.bind_splits)
    from Cons.IH[OF rest] Reduce_unchanged[OF assms r] show ?thesis by simp
  next
    case DoFinalize
    with Cons.prems obtain st1 where f: "Finalize cfg st = Some st1"
      and rest: "run cfg ops st1 = Some st'"
      by (auto split: Option.bind_splits)
    from Cons.IH[OF rest] Finalize_loop_unchanged[OF assms, of "candidates st" st st1] f
    show ?thesis by (simp add: Finalize_eq_loop)
  qed
qed

lemma Reduce_candidates_node:
  assumes "Reduce cfg nd st = Some (r, st')"
  shows "candidates st' = candidates st
    \<or> (nd \<notin> seen st \<and> nd \<in> seen st'
        \<and> (\<exists>c. node c = nd \<and> candidates st' = candidates_insert c (candidates st)))"
proof -
  let ?st1 = "st\<lparr>seen := insert nd (seen st)\<rparr>"
  have ic: "candidates st' = candidates st"
    if a: "InlineCandidate cfg c fi ?st1 = Some (r, st')" for c fi
    using InlineCandidate_keeps[OF a] by auto
  have enq: "\<exists>c. node c = nd \<and> candidates_insert c0 cs = candidates_insert c cs"
    if "node c0 = nd" for c0 :: "'a Candidate" and cs
    using that by blast
  show ?thesis
    using assms
    by (auto simp: Reduce_def Let_def dest!: ic intro!: enq
             split: if_splits prod.splits Option.bind_splits Mode.splits)
qed

lemma Reduce_backlog_seen:
  assumes "node ` set (candidates st) \<subseteq> seen st" and "distinct (map node (candidates st))"
    and "Reduce cfg nd st = Some (r, st')"
  shows "node ` set (candidates st') \<subseteq> seen st' \<and> distinct (map node (candidates st'))"
proof -
  note k = Reduce_keeps[OF assms(3)]
  from Reduce_candidates_node[OF assms(3)] show ?thesis
  proof
    assume "candidates st' = candidates st"
    with assms(1,2) k show ?thesis by auto
  next
    assume "nd \<notin> seen st \<and> nd \<in> seen st'
        \<and> (\<exists>c. node c = nd \<and> candidates st' = candidates_insert c (candidates st))"
    then obtain c where fresh: "nd \<notin> seen st" and now: "nd \<in> seen st'" and c: "node c = nd"
      and ins: "candidates st' = candidates_insert c (candidates st)"
      by blast
    have notin: "node c \<notin> node ` set (candidates st)" using fresh c assms(1) by auto
    have d: "distinct (map node (candidates st'))"
      unfolding ins using assms(2) notin by (rule distinct_candidates_insert)
    have "node ` set (candidates st') \<subseteq> insert nd (node ` set (candidates st))"
      unfolding ins using set_candidates_insert[of c "candidates st"] c by auto
    with assms(1) k now have "node ` set (candidates st') \<subseteq> seen st'" by blast
    with d show ?thesis by simp
  qed
qed

lemma Finalize_backlog_seen:
  assumes "node ` set (candidates st) \<subseteq> seen st" and "distinct (map node (candidates st))"
    and "Finalize cfg st = Some st'"
  shows "node ` set (candidates st') \<subseteq> seen st' \<and> distinct (map node (candidates st'))"
proof -
  obtain k where k: "candidates st' = drop k (candidates st)"
    using Finalize_loop_suffix[OF refl, of cfg st st'] assms(3) by (auto simp: Finalize_eq_loop)
  have s: "seen st' = seen st" using Finalize_keeps[OF assms(3)] by simp
  have "set (candidates st') \<subseteq> set (candidates st)" unfolding k by (rule set_drop_subset)
  with assms(1) s have 1: "node ` set (candidates st') \<subseteq> seen st'" by auto
  have "map node (candidates st') = drop k (map node (candidates st))"
    unfolding k by (simp add: drop_map)
  with assms(2) have 2: "distinct (map node (candidates st'))" by simp
  from 1 2 show ?thesis by simp
qed

lemma run_backlog_seen:
  "node ` set (candidates st) \<subseteq> seen st \<Longrightarrow> distinct (map node (candidates st)) \<Longrightarrow>
   run cfg ops st = Some st' \<Longrightarrow>
     node ` set (candidates st') \<subseteq> seen st' \<and> distinct (map node (candidates st'))"
proof (induction ops arbitrary: st)
  case Nil
  then show ?case by simp
next
  case (Cons x ops)
  show ?case
  proof (cases x)
    case (DoReduce nd)
    with Cons.prems obtain r st1 where r: "Reduce cfg nd st = Some (r, st1)"
      and rest: "run cfg ops st1 = Some st'"
      by (auto split: Option.bind_splits)
    from Reduce_backlog_seen[OF Cons.prems(1,2) r] Cons.IH[OF _ _ rest] show ?thesis by blast
  next
    case DoFinalize
    with Cons.prems obtain st1 where f: "Finalize cfg st = Some st1"
      and rest: "run cfg ops st1 = Some st'"
      by (auto split: Option.bind_splits)
    from Finalize_backlog_seen[OF Cons.prems(1,2) f] Cons.IH[OF _ _ rest] show ?thesis by blast
  qed
qed

subsection \<open>The counter and the sizes added to it\<close>

lemma wrap_int_add_nat:
  "is_int c \<Longrightarrow> wrap_int (wrap_int (c + int a) + int b) = wrap_int (c + int (a + b))"
  by (simp add: wrap_int_add add.assoc)

lemma wrap_int_zero: "is_int c \<Longrightarrow> wrap_int (c + int 0) = c"
  by (simp add: wrap_int_id)

lemma wrap_int_mono:
  "is_int c \<Longrightarrow> c + int a \<le> kMaxInt \<Longrightarrow> wrap_int (c + int a) = c + int a"
  by (rule wrap_int_id) (simp add: is_int_def)

lemma InlineCandidate_call_added_eq:
  assumes "is_int (cumulative_count st)"
  shows "cumulative_count (InlineCandidate_call cfg fi call f can st) =
           wrap_int (cumulative_count st + int (InlineCandidate_call_added cfg fi call f can st))"
  using assms
  by (simp add: InlineCandidate_call_delta InlineCandidate_call_added_def wrap_int_id)

lemma InlineCandidate_call_is_int:
  assumes "is_int (cumulative_count st)"
  shows "is_int (cumulative_count (InlineCandidate_call cfg fi call f can st))"
  using assms by (simp add: InlineCandidate_call_delta is_int_wrap_int)

lemma InlineCandidate_calls_added_eq:
  "is_int (cumulative_count st) \<Longrightarrow>
     cumulative_count (InlineCandidate_calls cfg fi c calls is st) =
       wrap_int (cumulative_count st + int (InlineCandidate_calls_added cfg fi c calls is st))"
proof (induction "is" arbitrary: st)
  case Nil
  then show ?case by (simp add: wrap_int_id)
next
  case (Cons i rest)
  let ?st1 = "InlineCandidate_call cfg fi (calls ! i) (target_functions c ! i)
                (can_inline_function c ! i) st"
  have 1: "is_int (cumulative_count ?st1)"
    using Cons.prems by (rule InlineCandidate_call_is_int)
  have 2: "cumulative_count ?st1 =
             wrap_int (cumulative_count st
               + int (InlineCandidate_call_added cfg fi (calls ! i) (target_functions c ! i)
                        (can_inline_function c ! i) st))"
    using Cons.prems by (rule InlineCandidate_call_added_eq)
  show ?case
    using Cons.IH[OF 1] Cons.prems
    by (simp add: 2 wrap_int_add add.assoc)
qed

lemma InlineCandidate_added_eq:
  assumes "is_int (cumulative_count st)" and "InlineCandidate cfg c fi st = Some (r, st')"
  shows "cumulative_count st' =
           wrap_int (cumulative_count st + int (InlineCandidate_added cfg c fi st))"
proof (cases "num_functions c = 1")
  case True
  from assms(2) assms(1) show ?thesis
    unfolding InlineCandidate_mono_delta[OF True]
    by (auto simp: InlineCandidate_added_def True wrap_int_id)
next
  case False
  from InlineCandidate_poly_loop[OF False assms(2)] obtain val calls g where
    e: "InlineCandidate_expand cfg c (graph st) = Some (val, calls, g)"
    and s: "st' = InlineCandidate_calls cfg fi c calls [0..<num_functions c] (st\<lparr>graph := g\<rparr>)"
    by blast
  have i: "is_int (cumulative_count (st\<lparr>graph := g\<rparr>))" using assms(1) by simp
  have a: "InlineCandidate_added cfg c fi st =
             InlineCandidate_calls_added cfg fi c calls [0..<num_functions c] (st\<lparr>graph := g\<rparr>)"
    using False e by (simp add: InlineCandidate_added_def)
  from InlineCandidate_calls_added_eq[OF i, of cfg fi c calls "[0..<num_functions c]"]
  show ?thesis unfolding s a by simp
qed

lemma InlineCandidate_is_int:
  assumes "is_int (cumulative_count st)" and "InlineCandidate cfg c fi st = Some (r, st')"
  shows "is_int (cumulative_count st')"
  unfolding InlineCandidate_added_eq[OF assms] by (rule is_int_wrap_int)

lemma foldl_total_size:
  "is_int sz \<Longrightarrow>
     foldl (\<lambda>s f. if CanInlineFunction cfg (target_shared f)
                    then wrap_int (s + int (bytecode_array_length (target_shared f))) else s) sz fs
       = wrap_int (sz + sum_list (map (\<lambda>f. int (bytecode_array_length (target_shared f)))
                                    (filter (\<lambda>f. CanInlineFunction cfg (target_shared f)) fs)))"
proof (induction fs arbitrary: sz)
  case Nil
  then show ?case by (simp add: wrap_int_id)
next
  case (Cons f fs)
  show ?case
  proof (cases "CanInlineFunction cfg (target_shared f)")
    case True
    have "is_int (wrap_int (sz + int (bytecode_array_length (target_shared f))))"
      by (rule is_int_wrap_int)
    from Cons.IH[OF this] True show ?thesis by (simp add: wrap_int_add add.assoc)
  next
    case False
    with Cons.IH[OF Cons.prems] show ?thesis by simp
  qed
qed

lemma Reduce_targets_eq:
  "Reduce_targets cfg fs (ci, fo, sm, sz, fl) =
     (ci \<or> list_ex (\<lambda>f. CanInlineFunction cfg (target_shared f)) fs,
      fo \<and> list_all (\<lambda>f. force_inline (target_shared f)) fs,
      sm \<and> list_all (\<lambda>f. IsSmallInlineFunction cfg (target_shared f)) fs,
      foldl (\<lambda>s f. if CanInlineFunction cfg (target_shared f)
                     then wrap_int (s + int (bytecode_array_length (target_shared f))) else s) sz fs,
      fl @ map (\<lambda>f. CanInlineFunction cfg (target_shared f)) fs)"
  by (induction fs arbitrary: ci fo sm sz fl) (auto simp: Let_def)

lemma Reduce_targets_initial:
  "Reduce_targets cfg fs (False, True, True, 0, []) =
     (list_ex (\<lambda>f. CanInlineFunction cfg (target_shared f)) fs,
      list_all (\<lambda>f. force_inline (target_shared f)) fs,
      list_all (\<lambda>f. IsSmallInlineFunction cfg (target_shared f)) fs,
      inlinable_size cfg fs,
      map (\<lambda>f. CanInlineFunction cfg (target_shared f)) fs)"
proof -
  have "is_int 0" by (simp add: is_int_def kMinInt_def kMaxInt_def)
  from foldl_total_size[OF this, of cfg fs] show ?thesis
    by (simp add: Reduce_targets_eq inlinable_size_def)
qed

lemma Reduce_substitution_Some:
  assumes "Reduce_substitution cfg nd st = Some (c, fi)"
  shows "Reduce cfg nd st = InlineCandidate cfg c fi (st\<lparr>seen := insert nd (seen st)\<rparr>)"
  using assms
  by (auto simp: Reduce_substitution_def Reduce_def Let_def Reduce_targets_initial
           split: if_splits Mode.splits option.splits bool.splits)

lemma Reduce_substitution_None:
  assumes "Reduce_substitution cfg nd st = None" and "Reduce cfg nd st = Some (r, st')"
  shows "r = NoChange \<and> cumulative_count st' = cumulative_count st \<and> graph st' = graph st"
  using assms
  by (auto simp: Reduce_substitution_def Reduce_def Let_def Reduce_targets_initial
           split: if_splits Mode.splits Option.bind_splits)


lemma Reduce_added_eq:
  assumes "is_int (cumulative_count st)" and "Reduce cfg nd st = Some (r, st')"
  shows "cumulative_count st' = wrap_int (cumulative_count st + int (Reduce_added cfg nd st))"
proof (cases "Reduce_substitution cfg nd st")
  case None
  from Reduce_substitution_None[OF None assms(2)] assms(1) show ?thesis
    by (simp add: Reduce_added_def None wrap_int_id)
next
  case (Some p)
  obtain c fi where p: "p = (c, fi)" by (cases p)
  let ?st1 = "st\<lparr>seen := insert nd (seen st)\<rparr>"
  have ic: "InlineCandidate cfg c fi ?st1 = Some (r, st')"
    using Reduce_substitution_Some[of cfg nd st c fi] Some p assms(2) by simp
  have "is_int (cumulative_count ?st1)" using assms(1) by simp
  from InlineCandidate_added_eq[OF this ic] show ?thesis
    by (simp add: Reduce_added_def Some p)
qed

lemma Finalize_loop_added_eq:
  "is_int (cumulative_count st) \<Longrightarrow> Finalize_loop cfg cs st = Some st' \<Longrightarrow>
     cumulative_count st' =
       wrap_int (cumulative_count st + int (Finalize_loop_added cfg cs st))"
proof (induction cs arbitrary: st)
  case Nil
  then show ?case by (simp add: wrap_int_id)
next
  case (Cons c rest)
  let ?st = "st\<lparr>candidates := rest\<rparr>"
  have i: "is_int (cumulative_count ?st)" using Cons.prems(1) by simp
  show ?case
  proof (cases "wrap_int (cumulative_count ?st + reserved_size cfg (total_size c))
                  > FLAG_max_inlined_bytecode_size_cumulative cfg
                \<or> IsDead (graph ?st) (node c)")
    case True
    then have "Finalize_loop cfg rest ?st = Some st'"
      using Cons.prems(2) by (auto simp: Let_def split: if_splits)
    from Cons.IH[OF i this] True show ?thesis by (auto simp: Let_def)
  next
    case False
    then obtain r st1 where ic: "InlineCandidate cfg c False ?st = Some (r, st1)"
      and rest: "(if Changed r then Some st1 else Finalize_loop cfg rest st1) = Some st'"
      using Cons.prems(2) by (auto simp: Let_def split: Option.bind_splits)
    note a = InlineCandidate_added_eq[OF i ic]
    have i1: "is_int (cumulative_count st1)" using InlineCandidate_is_int[OF i ic] .
    have d: "Finalize_loop_added cfg (c # rest) st =
               InlineCandidate_added cfg c False ?st
               + (if Changed r then 0 else Finalize_loop_added cfg rest st1)"
      using False ic by (auto simp: Let_def)
    show ?thesis
    proof (cases "Changed r")
      case True
      with rest a d show ?thesis by simp
    next
      case False
      with rest have "Finalize_loop cfg rest st1 = Some st'" by simp
      from Cons.IH[OF i1 this] a d False show ?thesis
        by (simp add: wrap_int_add add.assoc)
    qed
  qed
qed

lemma Finalize_added_eq:
  assumes "is_int (cumulative_count st)" and "Finalize cfg st = Some st'"
  shows "cumulative_count st' = wrap_int (cumulative_count st + int (Finalize_added cfg st))"
  using Finalize_loop_added_eq[OF assms(1), of cfg "candidates st" st'] assms(2)
  by (simp add: Finalize_eq_loop Finalize_added_def)

lemma run_added_eq:
  "is_int (cumulative_count st) \<Longrightarrow> run cfg ops st = Some st' \<Longrightarrow>
     cumulative_count st' = wrap_int (cumulative_count st + int (run_added cfg ops st))"
proof (induction ops arbitrary: st)
  case Nil
  then show ?case by (simp add: wrap_int_id)
next
  case (Cons x ops)
  show ?case
  proof (cases x)
    case (DoReduce nd)
    with Cons.prems obtain r st1 where r: "Reduce cfg nd st = Some (r, st1)"
      and rest: "run cfg ops st1 = Some st'"
      by (auto split: Option.bind_splits)
    note a = Reduce_added_eq[OF Cons.prems(1) r]
    have "is_int (cumulative_count st1)" unfolding a by (rule is_int_wrap_int)
    from Cons.IH[OF this rest] a r DoReduce show ?thesis
      by (simp add: wrap_int_add add.assoc)
  next
    case DoFinalize
    with Cons.prems obtain st1 where f: "Finalize cfg st = Some st1"
      and rest: "run cfg ops st1 = Some st'"
      by (auto split: Option.bind_splits)
    note a = Finalize_added_eq[OF Cons.prems(1) f]
    have "is_int (cumulative_count st1)" unfolding a by (rule is_int_wrap_int)
    from Cons.IH[OF this rest] a f DoFinalize show ?thesis
      by (simp add: wrap_int_add add.assoc)
  qed
qed

lemma run_append:
  "run cfg (ops1 @ ops2) st = (case run cfg ops1 st of None \<Rightarrow> None | Some st1 \<Rightarrow> run cfg ops2 st1)"
proof (induction ops1 arbitrary: st)
  case Nil
  then show ?case by simp
next
  case (Cons x ops1)
  then show ?case by (cases x) (auto split: option.splits Option.bind_splits)
qed

lemma run_added_append:
  "run cfg ops1 st = Some st1 \<Longrightarrow>
     run_added cfg (ops1 @ ops2) st = run_added cfg ops1 st + run_added cfg ops2 st1"
proof (induction ops1 arbitrary: st)
  case Nil
  then show ?case by simp
next
  case (Cons x ops1)
  then show ?case by (cases x) (auto split: option.splits Option.bind_splits)
qed

lemma run_monotone:
  assumes "is_int (cumulative_count st)"
    and "cumulative_count st + int (run_added cfg (ops1 @ ops2) st) \<le> kMaxInt"
    and "run cfg ops1 st = Some st1" and "run cfg ops2 st1 = Some st2"
  shows "cumulative_count st1 = cumulative_count st + int (run_added cfg ops1 st)
    \<and> cumulative_count st2 = cumulative_count st1 + int (run_added cfg ops2 st1)
    \<and> cumulative_count st \<le> cumulative_count st1
    \<and> cumulative_count st1 \<le> cumulative_count st2"
proof -
  note s = run_added_append[OF assms(3), of ops2]
  have b1: "cumulative_count st + int (run_added cfg ops1 st) \<le> kMaxInt"
    using assms(2) s by simp
  have 1: "cumulative_count st1 = cumulative_count st + int (run_added cfg ops1 st)"
    using run_added_eq[OF assms(1,3)] wrap_int_mono[OF assms(1) b1] by simp
  have i1: "is_int (cumulative_count st1)"
    using assms(1) b1 unfolding 1 by (simp add: is_int_def)
  have b2: "cumulative_count st1 + int (run_added cfg ops2 st1) \<le> kMaxInt"
    using assms(2) s 1 by simp
  have 2: "cumulative_count st2 = cumulative_count st1 + int (run_added cfg ops2 st1)"
    using run_added_eq[OF i1 assms(4)] wrap_int_mono[OF i1 b2] by simp
  from 1 2 show ?thesis by simp
qed

lemma InlineCandidate_no_change:
  assumes "InlineCandidate cfg c fi st = Some (r, st')" and "\<not> Changed r"
  shows "cumulative_count st' = cumulative_count st"
proof (cases "num_functions c = 1")
  case True
  from assms show ?thesis unfolding InlineCandidate_mono_delta[OF True] by auto
next
  case False
  from InlineCandidate_poly_loop[OF False assms(1)] assms(2) show ?thesis by auto
qed

lemma Finalize_loop_substitution:
  "Finalize_loop cfg cs st = Some st' \<Longrightarrow>
     cumulative_count st' = cumulative_count st
     \<or> (\<exists>c\<in>set cs. \<exists>st0 r. cumulative_count st0 = cumulative_count st \<and> Changed r
                           \<and> InlineCandidate cfg c False st0 = Some (r, st'))"
proof (induction cs arbitrary: st)
  case Nil
  then show ?case by simp
next
  case (Cons c rest)
  let ?st = "st\<lparr>candidates := rest\<rparr>"
  show ?case
  proof (cases "wrap_int (cumulative_count ?st + reserved_size cfg (total_size c))
                  > FLAG_max_inlined_bytecode_size_cumulative cfg
                \<or> IsDead (graph ?st) (node c)")
    case True
    then have "Finalize_loop cfg rest ?st = Some st'"
      using Cons.prems by (auto simp: Let_def split: if_splits)
    from Cons.IH[OF this] show ?thesis by auto
  next
    case False
    then obtain r st1 where ic: "InlineCandidate cfg c False ?st = Some (r, st1)"
      and rest: "(if Changed r then Some st1 else Finalize_loop cfg rest st1) = Some st'"
      using Cons.prems by (auto simp: Let_def split: Option.bind_splits)
    show ?thesis
    proof (cases "Changed r")
      case True
      with rest ic have "InlineCandidate cfg c False ?st = Some (r, st')" by simp
      moreover have "cumulative_count ?st = cumulative_count st" by simp
      ultimately show ?thesis using True by (metis list.set_intros(1))
    next
      case False
      with rest have f: "Finalize_loop cfg rest st1 = Some st'" by simp
      have "cumulative_count st1 = cumulative_count st"
        using InlineCandidate_no_change[OF ic False] by simp
      with Cons.IH[OF f] show ?thesis by auto
    qed
  qed
qed

subsection \<open>Renaming and collecting in the metadata\<close>

text \<open>
  Since \<^verbatim>\<open>processed\<close> is \<^verbatim>\<open>from\<close> for an input equal to \<^verbatim>\<open>from\<close>, the walk over state
  values finds \<^verbatim>\<open>processed == input\<close> at every input, at every depth: whenever it returns,
  it returns the node it was given and the graph it was given.
\<close>

lemma DuplicateStateValuesAndRename_loop_same:
  assumes "DuplicateStateValuesAndRename_loop g state_values from to clone_mode i copy = Some y"
  shows "y = (copy, g)"
proof (rule DuplicateStateValuesAndRename_loop.raw_induct
               [where P = "\<lambda>g sv f t cm i copy y. y = (copy, g)", OF _ assms], goal_cases)
  case (1 loop g state_values "from" to clone_mode i copy y)
  note IH = "1"(1) and hyps = "1"(2)
  show ?case
  proof (cases "i < InputCount g state_values")
    case False
    with hyps show ?thesis by simp
  next
    case True
    let ?input = "InputAt g state_values i"
    let ?first = "(if opcode g ?input = kStateValues
               then if 1 < UseCount g ?input then Some (?input, g)
                    else loop g ?input from to clone_mode 0
                          (if clone_mode = kChangeInPlace then Some ?input else None) \<bind>
                         (\<lambda>(c, g'). Some (case c of None \<Rightarrow> ?input | Some n \<Rightarrow> n, g'))
               else if ?input = from then Some (from, g)
                    else Some (?input, g))"
    from hyps True obtain processed g1 where
      first: "?first = Some (processed, g1)"
      by (auto simp: Let_def split: Option.bind_splits)
    have same: "processed = ?input \<and> g1 = g"
    proof (cases "opcode g ?input = kStateValues \<and> \<not> 1 < UseCount g ?input")
      case False
      with first show ?thesis by (auto split: if_splits)
    next
      case True
      with first obtain c g' where
        inner: "loop g ?input from to clone_mode 0
                  (if clone_mode = kChangeInPlace then Some ?input else None) = Some (c, g')"
        and res: "processed = (case c of None \<Rightarrow> ?input | Some n \<Rightarrow> n)" "g1 = g'"
        by (auto split: Option.bind_splits)
      from IH[OF inner] res show ?thesis by (auto split: if_splits)
    qed
    with hyps True first
    have "loop g state_values from to clone_mode (i + 1) copy = Some y"
      by (simp add: Let_def)
    from IH[OF this] show ?thesis .
  qed
qed

lemma DuplicateStateValuesAndRename_same:
  assumes "DuplicateStateValuesAndRename g state_values from to clone_mode = Some (r, g')"
  shows "r = state_values \<and> g' = g"
  using assms
  by (auto simp: DuplicateStateValuesAndRename_def
           dest!: DuplicateStateValuesAndRename_loop_same
           split: if_splits Option.bind_splits)

lemma UseCount_input:
  assumes "m < length g" and "n \<in> set (inputs (g ! m))"
  shows "UseCount g n \<ge> 1"
proof -
  have "count_list (inputs (g ! m)) n \<in> set (map (\<lambda>m. count_list (inputs m) n) g)"
    using assms(1) nth_mem[of m g] by auto
  then have "count_list (inputs (g ! m)) n \<le> UseCount g n"
    unfolding UseCount_def by (rule member_le_sum_list) simp
  moreover have "count_list (inputs (g ! m)) n > 0"
    using assms(2) count_list_0_iff[of "inputs (g ! m)" n] by auto
  ultimately show ?thesis by simp
qed

lemma DuplicateFrameStateAndRename_cases:
  assumes "DuplicateFrameStateAndRename g frame_state from to clone_mode = Some (r, g')"
  shows "(r = frame_state \<and> g' = g)
    \<or> (UseCount g frame_state \<le> 1 \<and> clone_mode = kChangeInPlace \<and> r = frame_state
        \<and> g' = ReplaceInput g frame_state kFrameStateStackInput to)
    \<or> (UseCount g frame_state \<le> 1 \<and> clone_mode = kCloneState \<and> r = length g
        \<and> g' = g @ [\<lparr>operator = operator (g ! frame_state),
                       inputs = (inputs (g ! frame_state))[kFrameStateStackInput := to],
                       killed = False\<rparr>])"
proof (cases "UseCount g frame_state > 1")
  case True
  with assms show ?thesis by (simp add: DuplicateFrameStateAndRename_def)
next
  case False
  let ?copy = "if clone_mode = kChangeInPlace then Some frame_state else None"
  obtain copy1 g1 where first:
    "(if InputAt g frame_state kFrameStateStackInput = from
      then ReplaceInputOfCopy g frame_state ?copy kFrameStateStackInput to
      else (?copy, g)) = (copy1, g1)"
    by (cases "(if InputAt g frame_state kFrameStateStackInput = from
      then ReplaceInputOfCopy g frame_state ?copy kFrameStateStackInput to
      else (?copy, g))") blast
  from assms False first obtain new_locals g2 where
    sv: "DuplicateStateValuesAndRename g1 (InputAt g1 frame_state kFrameStateLocalsInput)
           from to clone_mode = Some (new_locals, g2)"
    and res: "(let (copy2, g3) =
               (if new_locals \<noteq> InputAt g1 frame_state kFrameStateLocalsInput
                then ReplaceInputOfCopy g2 frame_state copy1 kFrameStateLocalsInput new_locals
                else (copy1, g2))
              in Some (case copy2 of Some n \<Rightarrow> n | None \<Rightarrow> frame_state, g3)) = Some (r, g')"
    by (auto simp: DuplicateFrameStateAndRename_def Let_def split: Option.bind_splits)
  from DuplicateStateValuesAndRename_same[OF sv] res
  have r: "r = (case copy1 of Some n \<Rightarrow> n | None \<Rightarrow> frame_state)" and g': "g' = g1"
    by auto
  show ?thesis
  proof (cases "InputAt g frame_state kFrameStateStackInput = from")
    case False
    with first r g' show ?thesis by (auto split: if_splits)
  next
    case True
    show ?thesis
    proof (cases clone_mode)
      case kChangeInPlace
      with True first r g' \<open>\<not> 1 < UseCount g frame_state\<close> show ?thesis
        by (auto simp: ReplaceInputOfCopy_def)
    next
      case kCloneState
      with True first r g' \<open>\<not> 1 < UseCount g frame_state\<close> show ?thesis
        by (auto simp: ReplaceInputOfCopy_def CloneNode_def NewNode_def ReplaceInput_def)
    qed
  qed
qed

lemma CollectStateValuesOwnedUses_loop_bound:
  assumes "CollectStateValuesOwnedUses_loop g nd state_values i uses max_uses = Some y"
  shows "length uses \<le> max_uses \<longrightarrow> length (snd y) \<le> max_uses"
proof (rule CollectStateValuesOwnedUses_loop.raw_induct
         [where P = "\<lambda>g nd sv i uses max_uses y.
                       length uses \<le> max_uses \<longrightarrow> length (snd y) \<le> max_uses",
          OF _ assms], goal_cases)
  case (1 loop g nd state_values i uses max_uses y)
  note IH = "1"(1) and hyps = "1"(2)
  show ?case
  proof
    assume le: "length uses \<le> max_uses"
    show "length (snd y) \<le> max_uses"
    proof (cases "i < InputCount g state_values")
      case False
      with hyps le show ?thesis by auto
    next
      case True
      let ?input = "InputAt g state_values i"
      show ?thesis
      proof (cases "opcode g ?input = kStateValues")
        case sv: True
        from hyps True sv obtain ok uses' where
          first: "(if 1 < UseCount g ?input then Some (True, uses)
                   else loop g nd ?input 0 uses max_uses) = Some (ok, uses')"
          and rest: "(if \<not> ok then Some (False, uses')
                      else loop g nd state_values (i + 1) uses' max_uses) = Some y"
          by (auto simp: Let_def split: Option.bind_splits)
        have le': "length uses' \<le> max_uses"
        proof (cases "1 < UseCount g ?input")
          case True
          with first le show ?thesis by simp
        next
          case False
          with first have "loop g nd ?input 0 uses max_uses = Some (ok, uses')" by simp
          from IH[OF this] le show ?thesis by simp
        qed
        show ?thesis
        proof (cases ok)
          case False
          with rest le' show ?thesis by auto
        next
          case True
          with rest have "loop g nd state_values (i + 1) uses' max_uses = Some y" by simp
          from IH[OF this] le' show ?thesis by simp
        qed
      next
        case nsv: False
        show ?thesis
        proof (cases "?input = nd")
          case False
          with hyps True nsv have "loop g nd state_values (i + 1) uses max_uses = Some y"
            by (simp add: Let_def)
          from IH[OF this] le show ?thesis by simp
        next
          case hit: True
          show ?thesis
          proof (cases "max_uses \<le> length uses")
            case True
            with hyps \<open>i < InputCount g state_values\<close> nsv hit le show ?thesis
              by (auto simp: Let_def)
          next
            case False
            with hyps \<open>i < InputCount g state_values\<close> nsv hit
            have "loop g nd state_values (i + 1) (uses @ [(state_values, i)]) max_uses = Some y"
              by (simp add: Let_def)
            from IH[OF this] False show ?thesis by simp
          qed
        qed
      qed
    qed
  qed
qed

lemma CollectFrameStateUniqueUses_bound:
  assumes "CollectFrameStateUniqueUses g nd frame_state uses max_uses = Some (ok, uses')"
    and "length uses \<le> max_uses"
  shows "length uses' \<le> max_uses"
proof (cases "UseCount g frame_state > 1")
  case True
  with assms show ?thesis by (simp add: CollectFrameStateUniqueUses_def)
next
  case False
  show ?thesis
  proof (cases "InputAt g frame_state kFrameStateStackInput = nd \<and> length uses \<ge> max_uses")
    case True
    with assms False show ?thesis by (auto simp: CollectFrameStateUniqueUses_def)
  next
    case nofull: False
    let ?uses1 = "if InputAt g frame_state kFrameStateStackInput = nd
                  then uses @ [(frame_state, kFrameStateStackInput)] else uses"
    have le1: "length ?uses1 \<le> max_uses" using nofull assms(2) by auto
    from assms(1) False nofull obtain ok2 uses2 where
      sv: "CollectStateValuesOwnedUses g nd (InputAt g frame_state kFrameStateLocalsInput)
             ?uses1 max_uses = Some (ok2, uses2)"
      and res: "uses' = uses2"
      by (auto simp: CollectFrameStateUniqueUses_def Let_def
               split: Option.bind_splits if_splits)
    have "length uses2 \<le> max_uses"
    proof (cases "UseCount g (InputAt g frame_state kFrameStateLocalsInput) > 1")
      case True
      with sv le1 show ?thesis by (auto simp: CollectStateValuesOwnedUses_def)
    next
      case False
      with sv have "CollectStateValuesOwnedUses_loop g nd
                      (InputAt g frame_state kFrameStateLocalsInput) 0 ?uses1 max_uses
                    = Some (ok2, uses2)"
        by (simp add: CollectStateValuesOwnedUses_def)
      from CollectStateValuesOwnedUses_loop_bound[OF this] le1 show ?thesis by simp
    qed
    with res show ?thesis by simp
  qed
qed

subsection \<open>Termination of the walks over the metadata\<close>

text \<open>
  The three walks over the metadata return on every graph whose metadata is not cyclic.
  It is enough that the inputs of every node are nodes of the graph, that the inputs of a
  state-values node are older than the node, and that the outer frame state of a frame
  state is older than the frame state, as in a graph whose nodes were created inputs first.
\<close>

definition closed_graph :: "'f Graph \<Rightarrow> bool" where
  "closed_graph g = (\<forall>n<length g. \<forall>m\<in>set (inputs (g ! n)). m < length g)"

definition metadata_ordered :: "'f Graph \<Rightarrow> bool" where
  "metadata_ordered g =
     (\<forall>n<length g.
        (opcode g n = kStateValues \<longrightarrow> (\<forall>m\<in>set (inputs (g ! n)). m < n))
        \<and> (opcode g n = kFrameState \<longrightarrow> GetFrameStateInput g n < n))"

lemma Reduce_levels_returns:
  assumes "metadata_ordered g"
  shows "frame_state < length g \<Longrightarrow> \<exists>within. Reduce_levels cfg g frame_state level = Some within"
proof (induction frame_state arbitrary: level rule: less_induct)
  case (less fs)
  show ?case
  proof (cases "opcode g fs = kFrameState")
    case False
    then show ?thesis by (subst Reduce_levels.simps) auto
  next
    case True
    with assms less.prems have lt: "GetFrameStateInput g fs < fs"
      by (simp add: metadata_ordered_def)
    with less.prems have "GetFrameStateInput g fs < length g" by simp
    from less.IH[OF lt this] True show ?thesis
      by (subst Reduce_levels.simps) auto
  qed
qed

lemma DuplicateStateValuesAndRename_loop_inputs:
  assumes "\<And>m copy'. m \<in> set (inputs (g ! state_values)) \<Longrightarrow> opcode g m = kStateValues \<Longrightarrow>
             DuplicateStateValuesAndRename_loop g m from to clone_mode 0 copy' = Some (copy', g)"
  shows "DuplicateStateValuesAndRename_loop g state_values from to clone_mode i copy
           = Some (copy, g)"
proof (induction "InputCount g state_values - i" arbitrary: i)
  case 0
  then have "\<not> i < InputCount g state_values" by simp
  then show ?case by (subst DuplicateStateValuesAndRename_loop.simps) simp
next
  case (Suc k)
  then have i: "i < InputCount g state_values" and k: "k = InputCount g state_values - (i + 1)"
    by simp_all
  let ?input = "InputAt g state_values i"
  have mem: "?input \<in> set (inputs (g ! state_values))"
    using i by (simp add: InputAt_def InputCount_def)
  have next_i: "DuplicateStateValuesAndRename_loop g state_values from to clone_mode (i + 1) copy
                  = Some (copy, g)"
    using Suc.hyps(1)[OF k] .
  show ?case
  proof (cases "opcode g ?input = kStateValues \<and> \<not> 1 < UseCount g ?input")
    case False
    with i next_i show ?thesis
      by (subst DuplicateStateValuesAndRename_loop.simps) (auto simp: Let_def)
  next
    case True
    then have "DuplicateStateValuesAndRename_loop g ?input from to clone_mode 0
                 (if clone_mode = kChangeInPlace then Some ?input else None)
               = Some (if clone_mode = kChangeInPlace then Some ?input else None, g)"
      using assms[OF mem] by simp
    with True i next_i show ?thesis
      by (subst DuplicateStateValuesAndRename_loop.simps) (auto simp: Let_def)
  qed
qed

lemma DuplicateStateValuesAndRename_loop_state_values:
  assumes "closed_graph g" and "metadata_ordered g"
  shows "state_values < length g \<Longrightarrow> opcode g state_values = kStateValues \<Longrightarrow>
           DuplicateStateValuesAndRename_loop g state_values from to clone_mode i copy
             = Some (copy, g)"
proof (induction state_values arbitrary: i copy rule: less_induct)
  case (less sv)
  show ?case
  proof (rule DuplicateStateValuesAndRename_loop_inputs)
    fix m copy'
    assume m: "m \<in> set (inputs (g ! sv))" and op: "opcode g m = kStateValues"
    have "m < sv" using assms(2) less.prems m by (simp add: metadata_ordered_def)
    moreover have "m < length g" using assms(1) less.prems(1) m by (simp add: closed_graph_def)
    ultimately show "DuplicateStateValuesAndRename_loop g m from to clone_mode 0 copy'
                       = Some (copy', g)"
      using less.IH op by simp
  qed
qed

lemma DuplicateStateValuesAndRename_returns:
  assumes "closed_graph g" and "metadata_ordered g" and "state_values < length g"
  shows "DuplicateStateValuesAndRename g state_values from to clone_mode
           = Some (state_values, g)"
proof -
  have "DuplicateStateValuesAndRename_loop g state_values from to clone_mode 0 copy
          = Some (copy, g)" for copy
  proof (rule DuplicateStateValuesAndRename_loop_inputs)
    fix m copy'
    assume m: "m \<in> set (inputs (g ! state_values))" and op: "opcode g m = kStateValues"
    have "m < length g" using assms(1,3) m by (simp add: closed_graph_def)
    then show "DuplicateStateValuesAndRename_loop g m from to clone_mode 0 copy'
                 = Some (copy', g)"
      using DuplicateStateValuesAndRename_loop_state_values[OF assms(1,2)] op by simp
  qed
  then show ?thesis by (simp add: DuplicateStateValuesAndRename_def)
qed

lemma CollectStateValuesOwnedUses_loop_inputs:
  assumes "\<And>m uses'. m \<in> set (inputs (g ! state_values)) \<Longrightarrow> opcode g m = kStateValues \<Longrightarrow>
             \<exists>y. CollectStateValuesOwnedUses_loop g nd m 0 uses' max_uses = Some y"
  shows "\<exists>y. CollectStateValuesOwnedUses_loop g nd state_values i uses max_uses = Some y"
proof (induction "InputCount g state_values - i" arbitrary: i uses)
  case 0
  then have "\<not> i < InputCount g state_values" by simp
  then show ?case by (subst CollectStateValuesOwnedUses_loop.simps) auto
next
  case (Suc k)
  then have i: "i < InputCount g state_values" and k: "k = InputCount g state_values - (i + 1)"
    by simp_all
  let ?input = "InputAt g state_values i"
  have mem: "?input \<in> set (inputs (g ! state_values))"
    using i by (simp add: InputAt_def InputCount_def)
  have next_i: "\<exists>y. CollectStateValuesOwnedUses_loop g nd state_values (i + 1) us max_uses = Some y"
    for us
    using Suc.hyps(1)[OF k] .
  show ?case
  proof (cases "opcode g ?input = kStateValues")
    case False
    with i next_i[of uses] next_i[of "uses @ [(state_values, i)]"] show ?thesis
      by (subst CollectStateValuesOwnedUses_loop.simps) (auto simp: Let_def)
  next
    case True
    obtain ok uses' where first:
      "(if 1 < UseCount g ?input then Some (True, uses)
        else CollectStateValuesOwnedUses_loop g nd ?input 0 uses max_uses) = Some (ok, uses')"
      using assms[OF mem True, of uses] by (cases "1 < UseCount g ?input") auto
    with True i next_i[of uses'] show ?thesis
      by (subst CollectStateValuesOwnedUses_loop.simps) (auto simp: Let_def)
  qed
qed

lemma CollectStateValuesOwnedUses_loop_state_values:
  assumes "closed_graph g" and "metadata_ordered g"
  shows "state_values < length g \<Longrightarrow> opcode g state_values = kStateValues \<Longrightarrow>
           \<exists>y. CollectStateValuesOwnedUses_loop g nd state_values i uses max_uses = Some y"
proof (induction state_values arbitrary: i uses rule: less_induct)
  case (less sv)
  show ?case
  proof (rule CollectStateValuesOwnedUses_loop_inputs)
    fix m uses'
    assume m: "m \<in> set (inputs (g ! sv))" and op: "opcode g m = kStateValues"
    have "m < sv" using assms(2) less.prems m by (simp add: metadata_ordered_def)
    moreover have "m < length g" using assms(1) less.prems(1) m by (simp add: closed_graph_def)
    ultimately show "\<exists>y. CollectStateValuesOwnedUses_loop g nd m 0 uses' max_uses = Some y"
      using less.IH op by simp
  qed
qed

lemma CollectStateValuesOwnedUses_returns:
  assumes "closed_graph g" and "metadata_ordered g" and "state_values < length g"
  shows "\<exists>y. CollectStateValuesOwnedUses g nd state_values uses max_uses = Some y"
proof -
  have "\<exists>y. CollectStateValuesOwnedUses_loop g nd state_values 0 uses max_uses = Some y"
  proof (rule CollectStateValuesOwnedUses_loop_inputs)
    fix m uses'
    assume m: "m \<in> set (inputs (g ! state_values))" and op: "opcode g m = kStateValues"
    have "m < length g" using assms(1,3) m by (simp add: closed_graph_def)
    then show "\<exists>y. CollectStateValuesOwnedUses_loop g nd m 0 uses' max_uses = Some y"
      using CollectStateValuesOwnedUses_loop_state_values[OF assms(1,2)] op by simp
  qed
  then show ?thesis by (auto simp: CollectStateValuesOwnedUses_def)
qed

lemma CollectFrameStateUniqueUses_returns:
  assumes "closed_graph g" and "metadata_ordered g" and "frame_state < length g"
    and "kFrameStateLocalsInput < InputCount g frame_state"
  shows "\<exists>y. CollectFrameStateUniqueUses g nd frame_state uses max_uses = Some y"
proof -
  let ?locals = "InputAt g frame_state kFrameStateLocalsInput"
  let ?uses1 = "if InputAt g frame_state kFrameStateStackInput = nd
                then uses @ [(frame_state, kFrameStateStackInput)] else uses"
  have "?locals \<in> set (inputs (g ! frame_state))"
    using assms(4) by (simp add: InputAt_def InputCount_def)
  then have "?locals < length g"
    using assms(1,3) by (simp add: closed_graph_def)
  from CollectStateValuesOwnedUses_returns[OF assms(1,2) this]
  obtain ok uses2 where
    sv: "CollectStateValuesOwnedUses g nd ?locals ?uses1 max_uses = Some (ok, uses2)"
    by fastforce
  show ?thesis
  proof (cases "UseCount g frame_state > 1
                \<or> (InputAt g frame_state kFrameStateStackInput = nd \<and> length uses \<ge> max_uses)")
    case True
    then show ?thesis by (auto simp: CollectFrameStateUniqueUses_def)
  next
    case False
    then have "CollectFrameStateUniqueUses g nd frame_state uses max_uses =
                 (if \<not> ok then Some (False, uses2) else Some (True, uses2))"
      using sv by (auto simp: CollectFrameStateUniqueUses_def Let_def)
    then show ?thesis by auto
  qed
qed

lemma opcode_ReplaceInput [simp]: "opcode (ReplaceInput g n i v) m = opcode g m"
  by (cases "n < length g"; cases "m = n")
     (simp_all add: opcode_def ReplaceInput_def list_update_beyond)

lemma inputs_ReplaceInput:
  "n < length g \<Longrightarrow>
     inputs (ReplaceInput g n i v ! m) = (if m = n then (inputs (g ! n))[i := v] else inputs (g ! m))"
  by (simp add: ReplaceInput_def)

lemma length_ReplaceInput [simp]: "length (ReplaceInput g n i v) = length g"
  by (simp add: ReplaceInput_def)

lemma wf_ReplaceInput:
  assumes "closed_graph g" and "metadata_ordered g" and "n < length g" and "v < length g"
    and "opcode g n = kFrameState" and "i \<noteq> kFrameStateOuterStateInput"
  shows "closed_graph (ReplaceInput g n i v) \<and> metadata_ordered (ReplaceInput g n i v)"
proof -
  let ?g = "ReplaceInput g n i v"
  have c: "closed_graph ?g"
    unfolding closed_graph_def
  proof (intro allI impI ballI)
    fix m k assume m: "m < length ?g" and k: "k \<in> set (inputs (?g ! m))"
    show "k < length ?g"
    proof (cases "m = n")
      case True
      with k assms(3) have "k \<in> insert v (set (inputs (g ! n)))"
        using set_update_subset_insert[of "inputs (g ! n)" i v]
        by (auto simp: inputs_ReplaceInput)
      with assms(1,3,4) show ?thesis by (auto simp: closed_graph_def)
    next
      case False
      with k m assms(1,3) show ?thesis by (auto simp: closed_graph_def inputs_ReplaceInput)
    qed
  qed
  have o: "metadata_ordered ?g"
    unfolding metadata_ordered_def
  proof (intro allI impI conjI ballI)
    fix m k assume m: "m < length ?g" and sv: "opcode ?g m = kStateValues"
      and k: "k \<in> set (inputs (?g ! m))"
    from sv assms(5) have "m \<noteq> n" by auto
    with k m sv assms(2,3) show "k < m"
      by (auto simp: metadata_ordered_def inputs_ReplaceInput)
  next
    fix m assume m: "m < length ?g" and fs: "opcode ?g m = kFrameState"
    have "GetFrameStateInput ?g m = GetFrameStateInput g m"
      using fs assms(3,6)
      by (simp add: GetFrameStateInput_def InputAt_def inputs_ReplaceInput)
    with m fs assms(2) show "GetFrameStateInput ?g m < m"
      by (simp add: metadata_ordered_def)
  qed
  from c o show ?thesis by simp
qed

lemma wf_append:
  assumes "closed_graph g" and "metadata_ordered g"
    and "\<forall>m\<in>set ins. m < length g"
    and "opcode_of oper = kFrameState \<longrightarrow> kFrameStateOuterStateInput < length ins"
  shows "closed_graph (g @ [\<lparr>operator = oper, inputs = ins, killed = False\<rparr>])
    \<and> metadata_ordered (g @ [\<lparr>operator = oper, inputs = ins, killed = False\<rparr>])"
proof -
  let ?new = "\<lparr>operator = oper, inputs = ins, killed = False\<rparr>"
  let ?g = "g @ [?new]"
  have old: "?g ! m = g ! m" if "m < length g" for m using that by (simp add: nth_append)
  have new: "?g ! length g = ?new" by simp
  have c: "closed_graph ?g"
    unfolding closed_graph_def
  proof (intro allI impI ballI)
    fix m k assume m: "m < length ?g" and k: "k \<in> set (inputs (?g ! m))"
    show "k < length ?g"
    proof (cases "m < length g")
      case True
      with k assms(1) old have "k < length g" by (auto simp: closed_graph_def)
      then show ?thesis by simp
    next
      case False
      with m have "m = length g" by simp
      with k assms(3) new have "k < length g" by auto
      then show ?thesis by simp
    qed
  qed
  have o: "metadata_ordered ?g"
    unfolding metadata_ordered_def
  proof (intro allI impI conjI ballI)
    fix m k assume m: "m < length ?g" and sv: "opcode ?g m = kStateValues"
      and k: "k \<in> set (inputs (?g ! m))"
    show "k < m"
    proof (cases "m < length g")
      case True
      with k sv assms(2) old show ?thesis by (auto simp: metadata_ordered_def opcode_def)
    next
      case False
      with m have "m = length g" by simp
      with k assms(3) new show ?thesis by auto
    qed
  next
    fix m assume m: "m < length ?g" and fs: "opcode ?g m = kFrameState"
    show "GetFrameStateInput ?g m < m"
    proof (cases "m < length g")
      case True
      with fs old have "opcode g m = kFrameState" by (simp add: opcode_def)
      with True assms(2) have "GetFrameStateInput g m < m" by (simp add: metadata_ordered_def)
      moreover have "GetFrameStateInput ?g m = GetFrameStateInput g m"
        using True old by (simp add: GetFrameStateInput_def InputAt_def InputCount_def opcode_def)
      ultimately show ?thesis by simp
    next
      case False
      with m have eq: "m = length g" by simp
      with fs new have "opcode_of oper = kFrameState" by (simp add: opcode_def)
      with assms(4) have "kFrameStateOuterStateInput < length ins" by simp
      then have "ins ! kFrameStateOuterStateInput \<in> set ins" by simp
      with assms(3) have "ins ! kFrameStateOuterStateInput < length g" by blast
      moreover have "GetFrameStateInput ?g m = ins ! kFrameStateOuterStateInput"
        using eq fs new by (simp add: GetFrameStateInput_def InputAt_def)
      ultimately show ?thesis using eq by simp
    qed
  qed
  from c o show ?thesis by simp
qed

lemma DuplicateFrameStateAndRename_returns:
  assumes "closed_graph g" and "metadata_ordered g" and "frame_state < length g"
    and "opcode g frame_state = kFrameState"
    and "kFrameStateOuterStateInput < InputCount g frame_state"
    and "to < length g"
  shows "\<exists>r g'. DuplicateFrameStateAndRename g frame_state from to clone_mode = Some (r, g')"
proof (cases "UseCount g frame_state > 1")
  case True
  then show ?thesis by (simp add: DuplicateFrameStateAndRename_def)
next
  case False
  let ?copy = "if clone_mode = kChangeInPlace then Some frame_state else None"
  obtain copy1 g1 where first:
    "(if InputAt g frame_state kFrameStateStackInput = from
      then ReplaceInputOfCopy g frame_state ?copy kFrameStateStackInput to
      else (?copy, g)) = (copy1, g1)"
    by (cases "(if InputAt g frame_state kFrameStateStackInput = from
      then ReplaceInputOfCopy g frame_state ?copy kFrameStateStackInput to
      else (?copy, g))") blast
  let ?ins = "(inputs (g ! frame_state))[kFrameStateStackInput := to]"
  have ins_lt: "\<forall>m\<in>set ?ins. m < length g"
    using assms(1,3,6) set_update_subset_insert[of "inputs (g ! frame_state)" kFrameStateStackInput to]
    by (auto simp: closed_graph_def)
  have g1: "g1 = g \<or> g1 = ReplaceInput g frame_state kFrameStateStackInput to
            \<or> g1 = g @ [\<lparr>operator = operator (g ! frame_state), inputs = ?ins, killed = False\<rparr>]"
    using first
    by (auto simp: ReplaceInputOfCopy_def CloneNode_def NewNode_def ReplaceInput_def
             split: if_splits)
  have wf1: "closed_graph g1 \<and> metadata_ordered g1"
    using g1
  proof (elim disjE)
    assume "g1 = g" with assms(1,2) show ?thesis by simp
  next
    assume "g1 = ReplaceInput g frame_state kFrameStateStackInput to"
    with wf_ReplaceInput[OF assms(1,2,3,6,4)] show ?thesis
      by (simp add: kFrameStateStackInput_def kFrameStateOuterStateInput_def)
  next
    assume e: "g1 = g @ [\<lparr>operator = operator (g ! frame_state), inputs = ?ins, killed = False\<rparr>]"
    have "kFrameStateOuterStateInput < length ?ins" using assms(5) by (simp add: InputCount_def)
    with wf_append[OF assms(1,2) ins_lt] e show ?thesis by simp
  qed
  have len1: "frame_state < length g1" using g1 assms(3) by auto
  have cnt1: "kFrameStateLocalsInput < length (inputs (g1 ! frame_state))"
    using g1 assms(3,5)
    by (auto simp: InputCount_def kFrameStateLocalsInput_def kFrameStateOuterStateInput_def
          inputs_ReplaceInput nth_append)
  then have "InputAt g1 frame_state kFrameStateLocalsInput \<in> set (inputs (g1 ! frame_state))"
    by (simp add: InputAt_def)
  with wf1 len1 have "InputAt g1 frame_state kFrameStateLocalsInput < length g1"
    by (simp add: closed_graph_def)
  with wf1 have sv: "DuplicateStateValuesAndRename g1 (InputAt g1 frame_state kFrameStateLocalsInput)
                       from to clone_mode
                     = Some (InputAt g1 frame_state kFrameStateLocalsInput, g1)"
    using DuplicateStateValuesAndRename_returns by blast
  show ?thesis
    using False first sv
    by (simp add: DuplicateFrameStateAndRename_def Let_def)
qed

text \<open>
  The expansion of a call returns on every graph whose metadata is not cyclic and whose
  call site has the inputs that its operators ask for. One graph has the shape of another
  when it has all its nodes, each with the same opcode and the same number of inputs.
\<close>

definition same_shape :: "'f Graph \<Rightarrow> 'f Graph \<Rightarrow> bool" where
  "same_shape g g' =
     (length g \<le> length g'
      \<and> (\<forall>n<length g. opcode g' n = opcode g n \<and> InputCount g' n = InputCount g n))"

lemma same_shape_refl: "same_shape g g"
  by (simp add: same_shape_def)

lemma same_shape_trans: "same_shape g g1 \<Longrightarrow> same_shape g1 g2 \<Longrightarrow> same_shape g g2"
  by (auto simp: same_shape_def)

lemma same_shape_append: "same_shape g (g @ ext)"
  by (simp add: same_shape_def opcode_def InputCount_def nth_append)

lemma InputCount_ReplaceInput [simp]: "InputCount (ReplaceInput g n i v) m = InputCount g m"
  by (cases "n < length g"; cases "m = n")
     (simp_all add: InputCount_def ReplaceInput_def list_update_beyond)

lemma same_shape_ReplaceInput: "same_shape g (ReplaceInput g n i v)"
  by (simp add: same_shape_def)

lemma closed_graph_input:
  "closed_graph g \<Longrightarrow> n < length g \<Longrightarrow> i < InputCount g n \<Longrightarrow> InputAt g n i < length g"
  by (auto simp: closed_graph_def InputCount_def InputAt_def)

lemma DuplicateFrameStateAndRename_wf:
  assumes "closed_graph g" and "metadata_ordered g" and "frame_state < length g"
    and "opcode g frame_state = kFrameState"
    and "kFrameStateOuterStateInput < InputCount g frame_state"
    and "to < length g"
    and "DuplicateFrameStateAndRename g frame_state from to clone_mode = Some (r, g')"
  shows "closed_graph g' \<and> metadata_ordered g' \<and> same_shape g g' \<and> r < length g'"
proof -
  let ?ins = "(inputs (g ! frame_state))[kFrameStateStackInput := to]"
  let ?clone = "\<lparr>operator = operator (g ! frame_state), inputs = ?ins, killed = False\<rparr>"
  from DuplicateFrameStateAndRename_cases[OF assms(7)]
  consider (same) "r = frame_state" "g' = g"
    | (inplace) "r = frame_state" "g' = ReplaceInput g frame_state kFrameStateStackInput to"
    | (clone) "r = length g" "g' = g @ [?clone]"
    by blast
  then show ?thesis
  proof cases
    case same
    with assms show ?thesis by (simp add: same_shape_refl)
  next
    case inplace
    have "kFrameStateStackInput \<noteq> kFrameStateOuterStateInput"
      by (simp add: kFrameStateStackInput_def kFrameStateOuterStateInput_def)
    from wf_ReplaceInput[OF assms(1,2,3,6,4) this] inplace assms(3)
    show ?thesis by (simp add: same_shape_ReplaceInput)
  next
    case clone
    have "set ?ins \<subseteq> insert to (set (inputs (g ! frame_state)))"
      by (rule set_update_subset_insert)
    then have 1: "\<forall>m\<in>set ?ins. m < length g"
      using assms(1,3,6) by (auto simp: closed_graph_def)
    have 2: "opcode_of (operator (g ! frame_state)) = kFrameState
               \<longrightarrow> kFrameStateOuterStateInput < length ?ins"
      using assms(5) by (simp add: InputCount_def)
    from wf_append[OF assms(1,2) 1 2] clone show ?thesis
      by (simp add: same_shape_append)
  qed
qed

lemma TryReuseDispatch_calls_returns:
  "closed_graph g \<Longrightarrow> metadata_ordered g \<Longrightarrow> nd < length g \<Longrightarrow>
   IsInlineeOpcode (opcode g nd) \<Longrightarrow> callee < length g \<Longrightarrow> effect_phi < length g \<Longrightarrow>
   merge < length g \<Longrightarrow>
   \<forall>i\<in>set indices. i < InputCount g callee \<and> i < InputCount g effect_phi
                     \<and> i < InputCount g merge \<Longrightarrow>
   frame_state < length g \<Longrightarrow> opcode g frame_state = kFrameState \<Longrightarrow>
   kFrameStateOuterStateInput < InputCount g frame_state \<Longrightarrow>
   (\<forall>cp cs. checkpoint = Some (cp, cs) \<longrightarrow>
      cp < length g \<and> opcode g cp = kCheckpoint \<and> cs < length g
      \<and> opcode g cs = kFrameState \<and> kFrameStateOuterStateInput < InputCount g cs) \<Longrightarrow>
   \<forall>m\<in>set ins. m < length g \<Longrightarrow>
   \<exists>y. TryReuseDispatch_calls g nd callee effect_phi merge checkpoint frame_state num_calls
          indices ins input_count = Some y"
proof (induction indices arbitrary: g ins)
  case Nil
  then show ?case by simp
next
  case (Cons i rest)
  let ?target = "InputAt g callee i"
  let ?effect = "InputAt g effect_phi i"
  let ?control = "InputAt g merge i"
  let ?cm = "if i = num_calls - 1 then kChangeInPlace else kCloneState"
  have ii: "i < InputCount g callee" "i < InputCount g effect_phi" "i < InputCount g merge"
    using Cons.prems(8) by simp_all
  have t: "?target < length g" using closed_graph_input[OF Cons.prems(1,5) ii(1)] .
  have e: "?effect < length g" using closed_graph_input[OF Cons.prems(1,6) ii(2)] .
  have c: "?control < length g" using closed_graph_input[OF Cons.prems(1,7) ii(3)] .
  \<comment> \<open>the checkpoint of this round\<close>
  have "\<exists>effect1 g1.
      (case checkpoint of
         Some (cp, checkpoint_state) \<Rightarrow>
           DuplicateFrameStateAndRename g checkpoint_state callee ?target ?cm \<bind>
             (\<lambda>(new_checkpoint_state, ga).
                Some (NewNode ga (operator (ga ! cp)) [new_checkpoint_state, ?effect, ?control]))
       | None \<Rightarrow> Some (?effect, g)) = Some (effect1, g1)
      \<and> closed_graph g1 \<and> metadata_ordered g1 \<and> same_shape g g1 \<and> effect1 < length g1"
  proof (cases checkpoint)
    case None
    with Cons.prems e show ?thesis by (simp add: same_shape_refl)
  next
    case (Some p)
    obtain cp cs where p: "p = (cp, cs)" by (cases p)
    from Cons.prems(12) Some p have cpw: "cp < length g" "opcode g cp = kCheckpoint"
      "cs < length g" "opcode g cs = kFrameState"
      "kFrameStateOuterStateInput < InputCount g cs"
      by simp_all
    from DuplicateFrameStateAndRename_returns[OF Cons.prems(1,2) cpw(3,4,5) t]
    obtain ncs ga where d: "DuplicateFrameStateAndRename g cs callee ?target ?cm = Some (ncs, ga)"
      by blast
    from DuplicateFrameStateAndRename_wf[OF Cons.prems(1,2) cpw(3,4,5) t d]
    have wa: "closed_graph ga" "metadata_ordered ga" "same_shape g ga" "ncs < length ga"
      by simp_all
    have la: "length g \<le> length ga" using wa(3) by (simp add: same_shape_def)
    have oa: "opcode ga cp = kCheckpoint" using wa(3) cpw(1,2) by (simp add: same_shape_def)
    let ?g1 = "ga @ [\<lparr>operator = operator (ga ! cp), inputs = [ncs, ?effect, ?control],
                       killed = False\<rparr>]"
    have 1: "\<forall>m\<in>set [ncs, ?effect, ?control]. m < length ga" using wa(4) e c la by simp
    have 2: "opcode_of (operator (ga ! cp)) = kFrameState
               \<longrightarrow> kFrameStateOuterStateInput < length [ncs, ?effect, ?control]"
      using oa by (simp add: opcode_def)
    from wf_append[OF wa(1,2) 1 2] have w1: "closed_graph ?g1" "metadata_ordered ?g1" by simp_all
    have s1: "same_shape g ?g1" using same_shape_trans[OF wa(3) same_shape_append] .
    show ?thesis
      using Some p d w1 s1 by (simp add: NewNode_def)
  qed
  then obtain effect1 g1 where
    ck: "(case checkpoint of
         Some (cp, checkpoint_state) \<Rightarrow>
           DuplicateFrameStateAndRename g checkpoint_state callee ?target ?cm \<bind>
             (\<lambda>(new_checkpoint_state, ga).
                Some (NewNode ga (operator (ga ! cp)) [new_checkpoint_state, ?effect, ?control]))
       | None \<Rightarrow> Some (?effect, g)) = Some (effect1, g1)"
    and w1: "closed_graph g1" "metadata_ordered g1" and s1: "same_shape g g1"
    and e1: "effect1 < length g1"
    by blast
  have l1: "length g \<le> length g1" using s1 by (simp add: same_shape_def)
  have sh1: "opcode g1 n = opcode g n" "InputCount g1 n = InputCount g n" if "n < length g" for n
    using s1 that by (simp_all add: same_shape_def)
  \<comment> \<open>the frame state of this round\<close>
  have f1: "frame_state < length g1" "opcode g1 frame_state = kFrameState"
    "kFrameStateOuterStateInput < InputCount g1 frame_state" "?target < length g1"
    using Cons.prems(9,10,11) t l1 sh1 by simp_all
  from DuplicateFrameStateAndRename_returns[OF w1 f1]
  obtain fs g2 where d2: "DuplicateFrameStateAndRename g1 frame_state callee ?target ?cm
                            = Some (fs, g2)"
    by blast
  from DuplicateFrameStateAndRename_wf[OF w1 f1 d2]
  have w2: "closed_graph g2" "metadata_ordered g2" and s2: "same_shape g1 g2"
    and fs: "fs < length g2"
    by simp_all
  have s02: "same_shape g g2" using same_shape_trans[OF s1 s2] .
  have l2: "length g \<le> length g2" "length g1 \<le> length g2"
    using s02 s2 by (simp_all add: same_shape_def)
  let ?ins = "ins[0 := ?target, input_count - 3 := fs, input_count - 2 := effect1,
                  input_count - 1 := ?control]"
  let ?g3 = "g2 @ [\<lparr>operator = operator (g2 ! nd), inputs = ?ins, killed = False\<rparr>]"
  have u: "\<forall>m\<in>set (xs[k := v]). m < length g2"
    if "\<forall>m\<in>set xs. m < length g2" "v < length g2" for xs :: "nat list" and k v
    using that set_update_subset_insert[of xs k v] by auto
  have a0: "\<forall>m\<in>set ins. m < length g2" using Cons.prems(13) l2 by auto
  have t2: "?target < length g2" "effect1 < length g2" "?control < length g2"
    using t e1 c l2 by simp_all
  from u[OF a0 t2(1)] have a1: "\<forall>m\<in>set (ins[0 := ?target]). m < length g2" .
  from u[OF a1 fs] have a2: "\<forall>m\<in>set (ins[0 := ?target, input_count - 3 := fs]).
                               m < length g2" .
  from u[OF a2 t2(2)]
  have a3: "\<forall>m\<in>set (ins[0 := ?target, input_count - 3 := fs, input_count - 2 := effect1]).
              m < length g2" .
  from u[OF a3 t2(3)] have i3: "\<forall>m\<in>set ?ins. m < length g2" .
  have on: "opcode g2 nd = opcode g nd" using s02 Cons.prems(3) by (simp add: same_shape_def)
  have o3: "opcode_of (operator (g2 ! nd)) = kFrameState
              \<longrightarrow> kFrameStateOuterStateInput < length ?ins"
    using Cons.prems(4) on by (auto simp: opcode_def IsInlineeOpcode_def)
  from wf_append[OF w2 i3 o3] have w3: "closed_graph ?g3" "metadata_ordered ?g3" by simp_all
  have s3: "same_shape g ?g3" using same_shape_trans[OF s02 same_shape_append] .
  have l3: "length g \<le> length ?g3" using s3 by (simp add: same_shape_def)
  have sh3: "opcode ?g3 n = opcode g n" "InputCount ?g3 n = InputCount g n" if "n < length g" for n
    using s3 that by (simp_all add: same_shape_def)
  have i3': "\<forall>m\<in>set ?ins. m < length ?g3" using i3 by auto
  have p8: "\<forall>j\<in>set rest. j < InputCount ?g3 callee \<and> j < InputCount ?g3 effect_phi
                     \<and> j < InputCount ?g3 merge"
    using Cons.prems(8) sh3(2)[OF Cons.prems(5)] sh3(2)[OF Cons.prems(6)]
      sh3(2)[OF Cons.prems(7)]
    by simp
  have p12: "\<forall>cp cs. checkpoint = Some (cp, cs) \<longrightarrow>
      cp < length ?g3 \<and> opcode ?g3 cp = kCheckpoint \<and> cs < length ?g3
      \<and> opcode ?g3 cs = kFrameState \<and> kFrameStateOuterStateInput < InputCount ?g3 cs"
  proof (intro allI impI)
    fix cp cs assume "checkpoint = Some (cp, cs)"
    with Cons.prems(12) have q: "cp < length g" "opcode g cp = kCheckpoint" "cs < length g"
      "opcode g cs = kFrameState" "kFrameStateOuterStateInput < InputCount g cs"
      by blast+
    show "cp < length ?g3 \<and> opcode ?g3 cp = kCheckpoint \<and> cs < length ?g3
      \<and> opcode ?g3 cs = kFrameState \<and> kFrameStateOuterStateInput < InputCount ?g3 cs"
      using q sh3[of cp] sh3[of cs] l3 by simp
  qed
  have "\<exists>y. TryReuseDispatch_calls ?g3 nd callee effect_phi merge checkpoint frame_state
               num_calls rest ?ins input_count = Some y"
  proof (rule Cons.IH[OF w3 _ _ _ _ _ p8 _ _ _ p12 i3'])
    show "nd < length ?g3" using Cons.prems(3) l3 by simp
    show "IsInlineeOpcode (opcode ?g3 nd)" using Cons.prems(3,4) sh3[of nd] by simp
    show "callee < length ?g3" using Cons.prems(5) l3 by simp
    show "effect_phi < length ?g3" using Cons.prems(6) l3 by simp
    show "merge < length ?g3" using Cons.prems(7) l3 by simp
    show "frame_state < length ?g3" using Cons.prems(9) l3 by simp
    show "opcode ?g3 frame_state = kFrameState" using Cons.prems(9,10) sh3[of frame_state] by simp
    show "kFrameStateOuterStateInput < InputCount ?g3 frame_state"
      using Cons.prems(9,11) sh3[of frame_state] by simp
  qed
  then obtain g' calls where rec: "TryReuseDispatch_calls ?g3 nd callee effect_phi merge
      checkpoint frame_state num_calls rest ?ins input_count = Some (g', calls)"
    by auto
  show ?case
    using ck d2 rec by (simp del: One_nat_def add: Let_def NewNode_def)
qed


text \<open>
  A call site with \<open>num_calls\<close> targets is well formed when the graph is closed and its
  metadata ordered, the call has its value, frame-state, effect and control inputs, its
  callee (a phi over the targets) has more than \<open>num_calls\<close> inputs and the control of the
  callee (a merge) at least \<open>num_calls\<close>, its frame state is a frame state with all its
  inputs, an effect phi that precedes the call has more than \<open>num_calls\<close> inputs, and a
  checkpoint that precedes it has three inputs, the first a frame state with all its
  inputs.
\<close>

definition call_site_wf :: "'f Graph \<Rightarrow> nat \<Rightarrow> nat \<Rightarrow> bool" where
  "call_site_wf g nd num_calls =
     (closed_graph g \<and> metadata_ordered g \<and> nd < length g \<and> IsInlineeOpcode (opcode g nd)
      \<and> 3 \<le> InputCount g nd
      \<and> (let callee = InputAt g nd 0;
             merge = GetControlInput g callee;
             effect0 = GetEffectInput g nd;
             frame_state = GetFrameStateInput g nd
         in num_calls < InputCount g callee
            \<and> num_calls \<le> InputCount g merge
            \<and> opcode g frame_state = kFrameState
            \<and> kFrameStateOuterStateInput < InputCount g frame_state
            \<and> (opcode g effect0 = kEffectPhi \<longrightarrow> num_calls < InputCount g effect0)
            \<and> (opcode g effect0 = kCheckpoint \<longrightarrow>
                 InputCount g effect0 = 3
                 \<and> opcode g (InputAt g effect0 0) = kFrameState
                 \<and> kFrameStateOuterStateInput < InputCount g (InputAt g effect0 0)
                 \<and> (opcode g (GetEffectInput g effect0) = kEffectPhi \<longrightarrow>
                        num_calls < InputCount g (GetEffectInput g effect0)))))"

lemma TryReuseDispatch_returns:
  assumes "call_site_wf g nd (num_functions candidate)" and "\<forall>m\<in>set ins. m < length g"
  shows "\<exists>y. TryReuseDispatch g nd (InputAt g nd 0) candidate ins input_count = Some y"
proof -
  let ?n = "num_functions candidate"
  let ?callee = "InputAt g nd 0"
  let ?merge = "GetControlInput g ?callee"
  let ?e0 = "GetEffectInput g nd"
  let ?fs = "GetFrameStateInput g nd"
  from assms(1) have cl: "closed_graph g" and mo: "metadata_ordered g" and nd: "nd < length g"
    and op: "IsInlineeOpcode (opcode g nd)" and ic: "3 \<le> InputCount g nd"
    and nc: "?n < InputCount g ?callee" and nm: "?n \<le> InputCount g ?merge"
    and ofs: "opcode g ?fs = kFrameState" and ifs: "kFrameStateOuterStateInput < InputCount g ?fs"
    and ne: "opcode g ?e0 = kEffectPhi \<longrightarrow> ?n < InputCount g ?e0"
    and ck: "opcode g ?e0 = kCheckpoint \<longrightarrow>
                 InputCount g ?e0 = 3
                 \<and> opcode g (InputAt g ?e0 0) = kFrameState
                 \<and> kFrameStateOuterStateInput < InputCount g (InputAt g ?e0 0)
                 \<and> (opcode g (GetEffectInput g ?e0) = kEffectPhi \<longrightarrow>
                        ?n < InputCount g (GetEffectInput g ?e0))"
    by (simp_all add: call_site_wf_def Let_def)
  have callee: "?callee < length g" using closed_graph_input[OF cl nd] ic by simp
  have e0: "?e0 < length g"
    unfolding GetEffectInput_def using closed_graph_input[OF cl nd] ic by simp
  have nfs: "opcode g nd \<noteq> kFrameState" using op by (auto simp: IsInlineeOpcode_def)
  have fs: "?fs < length g"
    unfolding GetFrameStateInput_def using closed_graph_input[OF cl nd] ic nfs by simp
  have merge: "?merge < length g"
    unfolding GetControlInput_def using closed_graph_input[OF cl callee] nc by simp
  have lfs: "kFrameStateLocalsInput < InputCount g ?fs"
    using ifs by (simp add: kFrameStateLocalsInput_def kFrameStateOuterStateInput_def)
  have calls: "\<exists>y. TryReuseDispatch_calls g nd ?callee effect ?merge checkpoint ?fs ?n
                    [0..<?n] ins input_count = Some y"
    if ef: "effect < length g" "?n < InputCount g effect"
      and cw: "\<forall>cp cs. checkpoint = Some (cp, cs) \<longrightarrow>
        cp < length g \<and> opcode g cp = kCheckpoint \<and> cs < length g
        \<and> opcode g cs = kFrameState \<and> kFrameStateOuterStateInput < InputCount g cs"
    for effect checkpoint
  proof -
    have idx: "\<forall>i\<in>set [0..<?n]. i < InputCount g ?callee \<and> i < InputCount g effect
                     \<and> i < InputCount g ?merge"
      using nc nm ef(2) by auto
    from TryReuseDispatch_calls_returns[OF cl mo nd op callee ef(1) merge idx
           fs ofs ifs cw assms(2)]
    show ?thesis .
  qed
  have "TryReuseDispatch g nd ?callee candidate ins input_count \<noteq> None"
  proof (cases "opcode g ?e0 = kCheckpoint")
    case True
    let ?cs = "InputAt g ?e0 0"
    let ?eff = "GetEffectInput g ?e0"
    from True ck have c3: "InputCount g ?e0 = 3" and ocs: "opcode g ?cs = kFrameState"
      and ics: "kFrameStateOuterStateInput < InputCount g ?cs"
      and nef: "opcode g ?eff = kEffectPhi \<longrightarrow> ?n < InputCount g ?eff"
      by simp_all
    have cs: "?cs < length g" using closed_graph_input[OF cl e0] c3 by simp
    have eff: "?eff < length g"
      unfolding GetEffectInput_def[of g ?e0] using closed_graph_input[OF cl e0] c3 by simp
    have lcs: "kFrameStateLocalsInput < InputCount g ?cs"
      using ics by (simp add: kFrameStateLocalsInput_def kFrameStateOuterStateInput_def)
    show ?thesis
    proof
      assume "TryReuseDispatch g nd ?callee candidate ins input_count = None"
      then have "opcode g ?eff = kEffectPhi
        \<and> (CollectFrameStateUniqueUses g ?callee ?cs [] kMaxUses = None
            \<or> (\<exists>uses1. CollectFrameStateUniqueUses g ?callee ?fs uses1 kMaxUses = None)
            \<or> TryReuseDispatch_calls g nd ?callee ?eff ?merge (Some (?e0, ?cs)) ?fs ?n
                  [0..<?n] ins input_count = None)"
        using True
        by (auto simp: TryReuseDispatch_def Let_def
                 split: if_splits prod.splits Option.bind_splits)
      moreover have "\<exists>y. CollectFrameStateUniqueUses g ?callee ?cs [] kMaxUses = Some y"
        using CollectFrameStateUniqueUses_returns[OF cl mo cs lcs] .
      moreover have "\<exists>y. CollectFrameStateUniqueUses g ?callee ?fs uses1 kMaxUses = Some y"
        for uses1
        using CollectFrameStateUniqueUses_returns[OF cl mo fs lfs] .
      moreover have "opcode g ?eff = kEffectPhi \<Longrightarrow>
          \<exists>y. TryReuseDispatch_calls g nd ?callee ?eff ?merge (Some (?e0, ?cs)) ?fs ?n
                 [0..<?n] ins input_count = Some y"
        using calls[of ?eff "Some (?e0, ?cs)"] eff nef e0 True cs ocs ics by simp
      ultimately show False by (metis option.distinct(1))
    qed
  next
    case False
    show ?thesis
    proof
      assume "TryReuseDispatch g nd ?callee candidate ins input_count = None"
      then have "opcode g ?e0 = kEffectPhi
        \<and> ((\<exists>uses1. CollectFrameStateUniqueUses g ?callee ?fs uses1 kMaxUses = None)
            \<or> TryReuseDispatch_calls g nd ?callee ?e0 ?merge None ?fs ?n
                  [0..<?n] ins input_count = None)"
        using False
        by (auto simp: TryReuseDispatch_def Let_def
                 split: if_splits prod.splits Option.bind_splits)
      moreover have "\<exists>y. CollectFrameStateUniqueUses g ?callee ?fs uses1 kMaxUses = Some y"
        for uses1
        using CollectFrameStateUniqueUses_returns[OF cl mo fs lfs] .
      moreover have "opcode g ?e0 = kEffectPhi \<Longrightarrow>
          \<exists>y. TryReuseDispatch_calls g nd ?callee ?e0 ?merge None ?fs ?n
                 [0..<?n] ins input_count = Some y"
        using calls[of ?e0 None] e0 ne by simp
      ultimately show False by (metis option.distinct(1))
    qed
  qed
  then show ?thesis by auto
qed

lemma InlineCandidate_expand_returns:
  assumes "call_site_wf g (node c) (num_functions c)"
  shows "\<exists>val calls g'. InlineCandidate_expand cfg c g = Some (val, calls, g')"
proof -
  let ?nd = "node c"
  from assms have cl: "closed_graph g" and nd: "?nd < length g"
    by (simp_all add: call_site_wf_def)
  have ins: "\<forall>m\<in>set (map (InputAt g ?nd) [0..<InputCount g ?nd]). m < length g"
    using closed_graph_input[OF cl nd] by auto
  from TryReuseDispatch_returns[OF assms ins] obtain y where
    t: "TryReuseDispatch g ?nd (InputAt g ?nd 0) c (map (InputAt g ?nd) [0..<InputCount g ?nd])
          (InputCount g ?nd) = Some y"
    by blast
  then have "\<exists>z. CreateOrReuseDispatch g ?nd (GetValueInput g ?nd 0) c
               (map (InputAt g ?nd) [0..<InputCount g ?nd]) (InputCount g ?nd) = Some z"
    by (cases y) (auto simp: CreateOrReuseDispatch_def GetValueInput_def)
  then obtain g1 calls where d: "CreateOrReuseDispatch g ?nd (GetValueInput g ?nd 0) c
               (map (InputAt g ?nd) [0..<InputCount g ?nd]) (InputCount g ?nd) = Some (g1, calls)"
    by auto
  show ?thesis
    using d by (simp add: InlineCandidate_expand_def Let_def split: prod.splits)
qed

lemma call_site_wf_merge:
  assumes "call_site_wf g nd n"
  shows "GetControlInput g (GetValueInput g nd 0) < length g"
proof -
  from assms have cl: "closed_graph g" and nd: "nd < length g" and ic: "3 \<le> InputCount g nd"
    and nc: "n < InputCount g (InputAt g nd 0)"
    by (simp_all add: call_site_wf_def Let_def)
  have callee: "InputAt g nd 0 < length g" using closed_graph_input[OF cl nd] ic by simp
  show ?thesis
    unfolding GetControlInput_def GetValueInput_def
    using closed_graph_input[OF cl callee] nc by simp
qed

lemma closed_graph_upt:
  "closed_graph g = (\<forall>n\<in>set [0..<length g]. \<forall>m\<in>set (inputs (g ! n)). m < length g)"
  by (auto simp: closed_graph_def)

lemma metadata_ordered_upt:
  "metadata_ordered g =
     (\<forall>n\<in>set [0..<length g].
        (opcode g n = kStateValues \<longrightarrow> (\<forall>m\<in>set (inputs (g ! n)). m < n))
        \<and> (opcode g n = kFrameState \<longrightarrow> GetFrameStateInput g n < n))"
  by (auto simp: metadata_ordered_def)

subsection \<open>The shape of a rebuilt dispatch\<close>

text \<open>
  The shape of a rebuilt dispatch, in the words of the specification: for every target but
  the last there are a reference-equality comparison of the callee with the target's
  constant, a branch on it under the current fallthrough control, and the two projections
  of the branch; the call of the target takes the true projection as its control and the
  probing goes on under the false projection; the call of the last target takes the
  fallthrough control that is left. Every call has the operator of the original call and its
  inputs, but for input 0, the target, and the last input, the control.
\<close>

fun dispatch_shape ::
  "'f Graph \<Rightarrow> 'f Operator \<Rightarrow> nat \<Rightarrow> nat list \<Rightarrow> nat \<Rightarrow> nat \<Rightarrow> Target list \<Rightarrow> nat list \<Rightarrow> bool" where
  "dispatch_shape g call_op callee ins input_count fallthrough [] calls = (calls = [])"
| "dispatch_shape g call_op callee ins input_count fallthrough (f # rest) calls =
     (case calls of
        [] \<Rightarrow> False
      | call # calls' \<Rightarrow>
          (\<exists>target<length g.
             operator (g ! target) = HeapConstant (target_object f)
             \<and> call < length g
             \<and> operator (g ! call) = call_op
             \<and> (if rest = [] then
                    inputs (g ! call) = ins[0 := target, input_count - 1 := fallthrough]
                    \<and> calls' = []
                  else
                    (\<exists>check<length g. \<exists>branch<length g. \<exists>if_false<length g. \<exists>if_true<length g.
                       g ! check = \<lparr>operator = ReferenceEqual, inputs = [callee, target],
                                    killed = False\<rparr>
                       \<and> g ! branch = \<lparr>operator = Branch, inputs = [check, fallthrough],
                                       killed = False\<rparr>
                       \<and> g ! if_false = \<lparr>operator = IfFalse, inputs = [branch], killed = False\<rparr>
                       \<and> g ! if_true = \<lparr>operator = IfTrue, inputs = [branch], killed = False\<rparr>
                       \<and> inputs (g ! call) = ins[0 := target, input_count - 1 := if_true]
                       \<and> dispatch_shape g call_op callee ins input_count if_false rest calls'))))"

definition count_operator :: "'f Operator \<Rightarrow> 'f Graph \<Rightarrow> nat" where
  "count_operator oper g = length (filter (\<lambda>n. operator n = oper) g)"

lemma CachedNode_cases:
  assumes "CachedNode g oper = (t, g')"
  shows "t < length g' \<and> operator (g' ! t) = oper
    \<and> (g' = g \<or> g' = g @ [\<lparr>operator = oper, inputs = [], killed = False\<rparr>])"
proof (cases "find (\<lambda>n. operator (g ! n) = oper \<and> inputs (g ! n) = [] \<and> \<not> killed (g ! n))
                [0..<length g]")
  case None
  with assms show ?thesis by (auto simp: CachedNode_def NewNode_def)
next
  case (Some n)
  then have "n < length g \<and> operator (g ! n) = oper"
    by (auto simp: find_Some_iff)
  with Some assms show ?thesis by (auto simp: CachedNode_def)
qed

lemma list_update_twice:
  "(xs[0 := a, k := b])[0 := c, k := d] = xs[0 := c, k := d]"
  by (cases "k = 0") (simp_all add: list_update_swap)

lemma dispatch_shape_inputs:
  "dispatch_shape g call_op callee (ins[0 := a, input_count - 1 := b]) input_count ft fs calls
     = dispatch_shape g call_op callee ins input_count ft fs calls"
proof (induction fs arbitrary: ft calls)
  case Nil
  then show ?case by simp
next
  case (Cons f rest)
  show ?case
    by (cases calls) (simp_all add: list_update_twice Cons.IH del: One_nat_def)
qed

lemma CreateDispatch_last:
  assumes "CachedNode g (HeapConstant (target_object f)) = (target, g1)"
  shows "CreateDispatch g nd callee [f] ft ins input_count =
           (g1 @ [\<lparr>operator = operator (g1 ! nd),
                    inputs = ins[0 := target, input_count - 1 := ft], killed = False\<rparr>],
            [length g1])"
  using assms by (simp add: NewNode_def Let_def)

lemma CreateDispatch_step:
  assumes "rest \<noteq> []" and "nd < length g1"
    and "CachedNode g (HeapConstant (target_object f)) = (target, g1)"
    and "check = length g1" and "branch = Suc check" and "if_false = Suc branch"
    and "if_true = Suc if_false" and "call = Suc if_true"
    and "g6 = g1 @ [\<lparr>operator = ReferenceEqual, inputs = [callee, target], killed = False\<rparr>,
                    \<lparr>operator = Branch, inputs = [check, ft], killed = False\<rparr>,
                    \<lparr>operator = IfFalse, inputs = [branch], killed = False\<rparr>,
                    \<lparr>operator = IfTrue, inputs = [branch], killed = False\<rparr>,
                    \<lparr>operator = operator (g1 ! nd),
                     inputs = ins[0 := target, input_count - 1 := if_true],
                     killed = False\<rparr>]"
    and "CreateDispatch g6 nd callee rest if_false
           (ins[0 := target, input_count - 1 := if_true]) input_count = (g', calls')"
  shows "CreateDispatch g nd callee (f # rest) ft ins input_count = (g', call # calls')"
  using assms
  by (simp add: NewNode_def Let_def nth_append del: One_nat_def)

lemma count_operator_append [simp]:
  "count_operator oper (g @ ext) = count_operator oper g + count_operator oper ext"
  by (simp add: count_operator_def)

lemma count_operator_Cons [simp]:
  "count_operator oper (n # g) = (if operator n = oper then 1 else 0) + count_operator oper g"
  by (simp add: count_operator_def)

lemma count_operator_Nil [simp]: "count_operator oper [] = 0"
  by (simp add: count_operator_def)

lemma CreateDispatch_shape_gen:
  assumes "nd < length g" and "operator (g ! nd) \<noteq> ReferenceEqual"
    and "operator (g ! nd) \<noteq> Branch"
    and "CreateDispatch g nd callee fs ft ins input_count = (g', calls)"
  shows "dispatch_shape g' (operator (g ! nd)) callee ins input_count ft fs calls
    \<and> (\<exists>ext. g' = g @ ext)
    \<and> length calls = length fs
    \<and> count_operator ReferenceEqual g' = count_operator ReferenceEqual g + (length fs - 1)
    \<and> count_operator Branch g' = count_operator Branch g + (length fs - 1)"
  using assms
proof (induction fs arbitrary: g ft ins g' calls)
  case Nil
  then show ?case by simp
next
  case (Cons f rest)
  let ?op = "operator (g ! nd)"
  obtain target g1 where cached: "CachedNode g (HeapConstant (target_object f)) = (target, g1)"
    by (cases "CachedNode g (HeapConstant (target_object f))") blast
  from CachedNode_cases[OF cached]
  have target: "target < length g1" "operator (g1 ! target) = HeapConstant (target_object f)"
    and g1: "g1 = g \<or> g1 = g @ [\<lparr>operator = HeapConstant (target_object f), inputs = [],
                                   killed = False\<rparr>]"
    by auto
  from g1 obtain ext1 where ext1: "g1 = g @ ext1"
    and cnt1: "count_operator ReferenceEqual ext1 = 0" "count_operator Branch ext1 = 0"
    by auto
  have nd1: "nd < length g1" "g1 ! nd = g ! nd"
    using ext1 Cons.prems(1) by (simp_all add: nth_append)
  show ?case
  proof (cases "rest = []")
    case True
    let ?call = "\<lparr>operator = operator (g1 ! nd),
                  inputs = ins[0 := target, input_count - 1 := ft], killed = False\<rparr>"
    from Cons.prems(4) True CreateDispatch_last[OF cached, of nd callee ft ins input_count]
    have res: "g' = g1 @ [?call]" "calls = [length g1]" by simp_all
    have shape: "dispatch_shape g' ?op callee ins input_count ft (f # rest) calls"
      using True res target nd1
      by (auto simp: nth_append intro!: exI[of _ target])
    have "g' = g @ (ext1 @ [?call])" using res ext1 by simp
    then have pre: "\<exists>ext. g' = g @ ext" ..
    show ?thesis
      using shape pre True res ext1 cnt1 nd1 Cons.prems(2,3) by simp
  next
    case False
    define check where "check = length g1"
    define branch where "branch = Suc check"
    define if_false where "if_false = Suc branch"
    define if_true where "if_true = Suc if_false"
    define call where "call = Suc if_true"
    define ins' where "ins' = ins[0 := target, input_count - 1 := if_true]"
    define five where "five =
       [\<lparr>operator = ReferenceEqual, inputs = [callee, target], killed = False\<rparr>,
        \<lparr>operator = Branch, inputs = [check, ft], killed = False\<rparr>,
        \<lparr>operator = IfFalse, inputs = [branch], killed = False\<rparr>,
        \<lparr>operator = IfTrue, inputs = [branch], killed = False\<rparr>,
        \<lparr>operator = operator (g1 ! nd), inputs = ins', killed = False\<rparr>]"
    define g6 where "g6 = g1 @ five"
    obtain g'' calls' where rec:
      "CreateDispatch g6 nd callee rest if_false ins' input_count = (g'', calls')"
      by (cases "CreateDispatch g6 nd callee rest if_false ins' input_count") blast
    have "CreateDispatch g nd callee (f # rest) ft ins input_count = (g'', call # calls')"
      using CreateDispatch_step[OF False nd1(1) cached check_def branch_def if_false_def
              if_true_def call_def _ rec[unfolded ins'_def]]
      by (simp add: g6_def five_def ins'_def)
    with Cons.prems(4) have res: "g' = g''" "calls = call # calls'" by simp_all
    have nd6: "nd < length g6" "g6 ! nd = g ! nd"
      using nd1 by (simp_all add: g6_def nth_append)
    from Cons.IH[OF nd6(1) _ _ rec] nd6(2) Cons.prems(2,3)
    have IH: "dispatch_shape g'' ?op callee ins' input_count if_false rest calls'"
      and ext6: "\<exists>ext. g'' = g6 @ ext"
      and len: "length calls' = length rest"
      and cnt: "count_operator ReferenceEqual g'' = count_operator ReferenceEqual g6 + (length rest - 1)"
               "count_operator Branch g'' = count_operator Branch g6 + (length rest - 1)"
      by simp_all
    from ext6 obtain ext where ext: "g'' = g6 @ ext" ..
    have old: "g'' ! n = g6 ! n" if "n < length g6" for n
      using that ext by (simp add: nth_append)
    have len6: "length g6 = length g1 + 5" by (simp add: g6_def five_def)
    have nodes:
      "g6 ! target = g1 ! target"
      "g6 ! check = \<lparr>operator = ReferenceEqual, inputs = [callee, target], killed = False\<rparr>"
      "g6 ! branch = \<lparr>operator = Branch, inputs = [check, ft], killed = False\<rparr>"
      "g6 ! if_false = \<lparr>operator = IfFalse, inputs = [branch], killed = False\<rparr>"
      "g6 ! if_true = \<lparr>operator = IfTrue, inputs = [branch], killed = False\<rparr>"
      "g6 ! call = \<lparr>operator = operator (g1 ! nd), inputs = ins', killed = False\<rparr>"
      using target(1)
      by (simp_all add: g6_def five_def nth_append check_def branch_def if_false_def
            if_true_def call_def)
    have lens: "target < length g6" "check < length g6" "branch < length g6"
      "if_false < length g6" "if_true < length g6" "call < length g6"
      using target(1) len6
      by (simp_all add: check_def branch_def if_false_def if_true_def call_def)
    have lens'': "target < length g''" "check < length g''" "branch < length g''"
      "if_false < length g''" "if_true < length g''" "call < length g''"
      using lens ext by simp_all
    have rest_shape: "dispatch_shape g'' ?op callee ins input_count if_false rest calls'"
      using IH dispatch_shape_inputs[of g'' ?op callee ins target input_count if_true if_false
              rest calls']
      by (simp add: ins'_def)
    have shape: "dispatch_shape g'' ?op callee ins input_count ft (f # rest) (call # calls')"
      using False rest_shape lens'' old[OF lens(1)] old[OF lens(2)] old[OF lens(3)]
        old[OF lens(4)] old[OF lens(5)] old[OF lens(6)] nodes target(2) nd1(2)
      apply (simp del: One_nat_def)
      apply (rule exI[of _ target], simp del: One_nat_def)
      apply (rule exI[of _ check], simp del: One_nat_def)
      apply (rule exI[of _ branch], simp del: One_nat_def)
      apply (rule exI[of _ if_false], simp del: One_nat_def)
      apply (rule exI[of _ if_true], simp add: ins'_def del: One_nat_def)
      done
    have "g'' = g @ (ext1 @ five @ ext)" using ext ext1 by (simp add: g6_def)
    then have pre: "\<exists>ext. g'' = g @ ext" ..
    have rest_len: "length rest \<ge> 1" using False by (cases rest) simp_all
    have c6: "count_operator ReferenceEqual g6 = count_operator ReferenceEqual g + 1"
      "count_operator Branch g6 = count_operator Branch g + 1"
      using cnt1 ext1 nd1(2) Cons.prems(2,3) by (simp_all add: g6_def five_def)
    have cnt': "count_operator ReferenceEqual g'' =
                  count_operator ReferenceEqual g + (length (f # rest) - 1)"
      "count_operator Branch g'' = count_operator Branch g + (length (f # rest) - 1)"
      using cnt c6 rest_len by simp_all
    show ?thesis
      unfolding res using shape pre len cnt' by simp
  qed
qed

subsection \<open>The specialized calls of an expansion\<close>

text \<open>
  One graph keeps the liveness of another when it has all its nodes and each of them is
  marked dead in the one exactly when it is in the other. The specialized calls of an
  expansion are fresh when they are different new nodes that are not marked dead.
\<close>

definition keeps_liveness :: "'f Graph \<Rightarrow> 'f Graph \<Rightarrow> bool" where
  "keeps_liveness g g' =
     (length g \<le> length g' \<and> (\<forall>n<length g. killed (g' ! n) = killed (g ! n)))"

definition fresh_calls :: "'f Graph \<Rightarrow> 'f Graph \<Rightarrow> nat list \<Rightarrow> bool" where
  "fresh_calls g g' calls =
     (distinct calls
      \<and> (\<forall>k\<in>set calls. length g \<le> k \<and> k < length g' \<and> \<not> killed (g' ! k)))"

text \<open>
  The inliner and the reducer service \<^verbatim>\<open>ReplaceWithValue\<close> rewire the graph and add nodes to
  it. That they mark no node dead and revive none is what the source relies on when it
  kills the call itself after a substitution ("Killing the call node is not strictly
  necessary"); it is a condition on the two parameters of the model.
\<close>

definition ReduceJSCall_keeps_liveness :: "'f Config \<Rightarrow> bool" where
  "ReduceJSCall_keeps_liveness cfg = (\<forall>g n. keeps_liveness g (snd (ReduceJSCall cfg g n)))"

definition ReplaceWithValue_keeps_liveness :: "'f Config \<Rightarrow> bool" where
  "ReplaceWithValue_keeps_liveness cfg =
     (\<forall>g n v e c. keeps_liveness g (ReplaceWithValue cfg g n v e c))"

lemma keeps_liveness_refl: "keeps_liveness g g"
  by (simp add: keeps_liveness_def)

lemma keeps_liveness_trans:
  "keeps_liveness g g1 \<Longrightarrow> keeps_liveness g1 g2 \<Longrightarrow> keeps_liveness g g2"
  by (auto simp: keeps_liveness_def)

lemma keeps_liveness_append: "keeps_liveness g (g @ ext)"
  by (simp add: keeps_liveness_def nth_append)

lemma keeps_liveness_ReplaceInput: "keeps_liveness g (ReplaceInput g n i v)"
  by (cases "n < length g") (auto simp: keeps_liveness_def ReplaceInput_def nth_list_update)

lemma NewNode_cases:
  assumes "NewNode g oper ins = (n, g')"
  shows "n = length g \<and> g' = g @ [\<lparr>operator = oper, inputs = ins, killed = False\<rparr>]"
  using assms by (auto simp: NewNode_def)

lemma keeps_liveness_NewNode:
  assumes "NewNode g oper ins = (n, g')"
  shows "keeps_liveness g g'"
  using NewNode_cases[OF assms] keeps_liveness_append by metis

lemma keeps_liveness_CachedNode:
  assumes "CachedNode g oper = (t, g')"
  shows "keeps_liveness g g'"
proof -
  from CachedNode_cases[OF assms] have "g' = g \<or> (\<exists>ext. g' = g @ ext)" by blast
  then show ?thesis using keeps_liveness_append[of g] keeps_liveness_refl[of g] by auto
qed

lemma keeps_liveness_DuplicateFrameStateAndRename:
  assumes "DuplicateFrameStateAndRename g frame_state from to clone_mode = Some (r, g')"
  shows "keeps_liveness g g'"
proof -
  from DuplicateFrameStateAndRename_cases[OF assms]
  have "g' = g \<or> (\<exists>n i v. g' = ReplaceInput g n i v) \<or> (\<exists>ext. g' = g @ ext)" by blast
  then show ?thesis
    using keeps_liveness_append[of g] keeps_liveness_refl[of g] keeps_liveness_ReplaceInput[of g]
    by auto
qed

lemma fresh_calls_keeps:
  "fresh_calls g g1 calls \<Longrightarrow> keeps_liveness g1 g2 \<Longrightarrow> fresh_calls g g2 calls"
  by (auto simp: fresh_calls_def keeps_liveness_def)

lemma fresh_calls_older:
  "fresh_calls g1 g2 calls \<Longrightarrow> length g \<le> length g1 \<Longrightarrow> fresh_calls g g2 calls"
  by (auto simp: fresh_calls_def)

lemma fresh_calls_Cons:
  assumes "fresh_calls g1 g2 calls" and "keeps_liveness g1 g2"
    and "call < length g1" and "\<not> killed (g1 ! call)" and "length g \<le> call"
  shows "fresh_calls g g2 (call # calls)"
  using assms by (auto simp: fresh_calls_def keeps_liveness_def)

lemma fresh_calls_Nil: "fresh_calls g g' []"
  by (simp add: fresh_calls_def)

lemma CreateDispatch_fresh:
  "CreateDispatch g nd callee fs ft ins input_count = (g', calls) \<Longrightarrow>
     keeps_liveness g g' \<and> fresh_calls g g' calls"
proof (induction fs arbitrary: g ft ins g' calls)
  case Nil
  then show ?case by (simp add: keeps_liveness_refl fresh_calls_Nil)
next
  case (Cons f rest)
  obtain target g1 where t: "CachedNode g (HeapConstant (target_object f)) = (target, g1)"
    by (cases "CachedNode g (HeapConstant (target_object f))")
  note k1 = keeps_liveness_CachedNode[OF t]
  have step: "keeps_liveness g g' \<and> fresh_calls g g' calls"
    if ext: "g6 = gx @ [\<lparr>operator = oper, inputs = ins', killed = False\<rparr>]"
      and kx: "keeps_liveness g1 gx"
      and rec: "CreateDispatch g6 nd callee rest ft' ins' input_count = (g'', calls')"
      and res: "g' = g''" "calls = length gx # calls'"
    for g6 gx oper ins' ft' g'' calls'
  proof -
    from Cons.IH[OF rec] have k6: "keeps_liveness g6 g''" and f6: "fresh_calls g6 g'' calls'"
      by simp_all
    have kg: "keeps_liveness g g6"
      using k1 kx keeps_liveness_append[of gx] ext keeps_liveness_trans by metis
    have 1: "length gx < length g6" "\<not> killed (g6 ! length gx)" using ext by simp_all
    have 2: "length g \<le> length gx" using k1 kx by (auto simp: keeps_liveness_def)
    from fresh_calls_Cons[OF f6 k6 1 2] keeps_liveness_trans[OF kg k6] res
    show ?thesis by simp
  qed
  show ?case
  proof (cases "rest = []")
    case True
    with Cons.prems t have res: "g' = g1 @ [\<lparr>operator = operator (g1 ! nd),
        inputs = ins[0 := target, input_count - 1 := ft], killed = False\<rparr>]"
      "calls = [length g1]"
      by (simp_all add: NewNode_def Let_def)
    have "CreateDispatch g' nd callee rest ft (ins[0 := target, input_count - 1 := ft]) input_count
            = (g', [])"
      using True by simp
    from step[OF res(1) keeps_liveness_refl this refl] res(2) show ?thesis by simp
  next
    case False
    let ?g5 = "g1 @ [\<lparr>operator = ReferenceEqual, inputs = [callee, target], killed = False\<rparr>,
                    \<lparr>operator = Branch, inputs = [length g1, ft], killed = False\<rparr>,
                    \<lparr>operator = IfFalse, inputs = [Suc (length g1)], killed = False\<rparr>,
                    \<lparr>operator = IfTrue, inputs = [Suc (length g1)], killed = False\<rparr>]"
    let ?ins = "ins[0 := target, input_count - 1 := Suc (Suc (Suc (length g1)))]"
    let ?g6 = "?g5 @ [\<lparr>operator = operator (?g5 ! nd), inputs = ?ins, killed = False\<rparr>]"
    obtain g'' calls' where rec:
      "CreateDispatch ?g6 nd callee rest (Suc (Suc (length g1))) ?ins input_count = (g'', calls')"
      by (cases "CreateDispatch ?g6 nd callee rest (Suc (Suc (length g1))) ?ins input_count")
    from Cons.prems t False rec have res: "g' = g''" "calls = length ?g5 # calls'"
      by (simp_all add: NewNode_def Let_def)
    from step[OF refl keeps_liveness_append rec res] show ?thesis .
  qed
qed


lemma TryReuseDispatch_calls_fresh:
  "TryReuseDispatch_calls g nd callee effect_phi merge checkpoint frame_state num_calls
     indices ins input_count = Some (g', calls) \<Longrightarrow>
     keeps_liveness g g' \<and> fresh_calls g g' calls"
proof (induction indices arbitrary: g ins g' calls)
  case Nil
  then show ?case by (simp add: keeps_liveness_refl fresh_calls_Nil)
next
  case (Cons i rest)
  let ?target = "InputAt g callee i"
  let ?cm = "if i = num_calls - 1 then kChangeInPlace else kCloneState"
  from Cons.prems obtain effect1 g1 where
    e: "(case checkpoint of
           Some (cp, checkpoint_state) \<Rightarrow>
             DuplicateFrameStateAndRename g checkpoint_state callee ?target ?cm \<bind>
               (\<lambda>(new_checkpoint_state, ga).
                  Some (NewNode ga (operator (ga ! cp))
                          [new_checkpoint_state, InputAt g effect_phi i, InputAt g merge i]))
         | None \<Rightarrow> Some (InputAt g effect_phi i, g)) = Some (effect1, g1)"
    by (auto simp del: One_nat_def simp add: Let_def split: Option.bind_splits)
  have k1: "keeps_liveness g g1"
  proof (cases checkpoint)
    case None
    with e show ?thesis by (simp add: keeps_liveness_refl)
  next
    case (Some p)
    obtain cp cs where p: "p = (cp, cs)" by (cases p)
    from e Some p obtain ncs ga where
      d: "DuplicateFrameStateAndRename g cs callee ?target ?cm = Some (ncs, ga)"
      and n: "NewNode ga (operator (ga ! cp)) [ncs, InputAt g effect_phi i, InputAt g merge i]
                = (effect1, g1)"
      by (auto split: Option.bind_splits)
    from keeps_liveness_DuplicateFrameStateAndRename[OF d] keeps_liveness_NewNode[OF n]
    show ?thesis by (rule keeps_liveness_trans)
  qed
  let ?ins = "\<lambda>fs. ins[0 := ?target, input_count - 3 := fs,
                       input_count - 2 := effect1, input_count - 1 := InputAt g merge i]"
  from Cons.prems e obtain fs g2 g'' calls' where
    d2: "DuplicateFrameStateAndRename g1 frame_state callee ?target ?cm = Some (fs, g2)"
    and rec: "TryReuseDispatch_calls
                (g2 @ [\<lparr>operator = operator (g2 ! nd), inputs = ?ins fs, killed = False\<rparr>])
                nd callee effect_phi merge checkpoint frame_state num_calls rest (?ins fs)
                input_count = Some (g'', calls')"
    and res: "g' = g''" "calls = length g2 # calls'"
    by (auto simp del: One_nat_def simp add: Let_def NewNode_def split: Option.bind_splits)
  let ?g3 = "g2 @ [\<lparr>operator = operator (g2 ! nd), inputs = ?ins fs, killed = False\<rparr>]"
  note k2 = keeps_liveness_DuplicateFrameStateAndRename[OF d2]
  from Cons.IH[OF rec] have k3: "keeps_liveness ?g3 g''" and f3: "fresh_calls ?g3 g'' calls'"
    by simp_all
  have kg: "keeps_liveness g ?g3"
    using keeps_liveness_trans[OF keeps_liveness_trans[OF k1 k2] keeps_liveness_append] .
  have 1: "length g2 < length ?g3" "\<not> killed (?g3 ! length g2)" by simp_all
  have 2: "length g \<le> length g2" using k1 k2 by (auto simp: keeps_liveness_def)
  from fresh_calls_Cons[OF f3 k3 1 2] keeps_liveness_trans[OF kg k3] res
  show ?case by simp
qed

lemma TryReuseDispatch_kill_liveness:
  "length g \<le> length (TryReuseDispatch_kill g nd callee effect_phi merge checkpoint
                           num_calls input_count)
   \<and> (\<forall>n<length g. n \<noteq> merge \<longrightarrow>
          killed (TryReuseDispatch_kill g nd callee effect_phi merge checkpoint
                    num_calls input_count ! n) = killed (g ! n))"
proof -
  obtain dead g0 where c: "CachedNode g Dead = (dead, g0)" by (cases "CachedNode g Dead")
  let ?g1 = "ReplaceInput g0 nd (input_count - 1) dead"
  let ?g2 = "ReplaceInput ?g1 callee num_calls dead"
  let ?g3 = "ReplaceInput ?g2 effect_phi num_calls dead"
  let ?g4 = "case checkpoint of Some cp \<Rightarrow> ReplaceInput ?g3 cp 2 dead | None \<Rightarrow> ?g3"
  have k4: "keeps_liveness ?g3 ?g4"
    by (cases checkpoint) (simp_all add: keeps_liveness_refl keeps_liveness_ReplaceInput)
  have k3: "keeps_liveness g ?g3"
    by (rule keeps_liveness_trans[OF keeps_liveness_trans[OF keeps_liveness_trans[OF
          keeps_liveness_CachedNode[OF c] keeps_liveness_ReplaceInput]
          keeps_liveness_ReplaceInput] keeps_liveness_ReplaceInput])
  have k: "keeps_liveness g ?g4" using k3 k4 by (rule keeps_liveness_trans)
  have r: "TryReuseDispatch_kill g nd callee effect_phi merge checkpoint num_calls input_count
             = Kill ?g4 merge"
    using c by (simp del: One_nat_def add: TryReuseDispatch_kill_def Let_def)
  show ?thesis
    unfolding r using k by (auto simp: keeps_liveness_def Kill_def)
qed

lemma TryReuseDispatch_fresh:
  assumes "TryReuseDispatch g nd callee candidate ins input_count = Some (True, g', calls)"
    and "GetControlInput g callee < length g"
  shows "fresh_calls g g' calls"
proof -
  from assms(1) obtain effect cp cps g1 where
    c: "TryReuseDispatch_calls g nd callee effect (GetControlInput g callee) cps
          (GetFrameStateInput g nd) (num_functions candidate) [0..<num_functions candidate]
          ins input_count = Some (g1, calls)"
    and g': "g' = TryReuseDispatch_kill g1 nd callee effect (GetControlInput g callee) cp
                    (num_functions candidate) input_count"
    by (auto simp: TryReuseDispatch_def Let_def
             split: if_splits prod.splits Option.bind_splits)
  from TryReuseDispatch_calls_fresh[OF c]
  have k: "keeps_liveness g g1" and f: "fresh_calls g g1 calls" by simp_all
  note l = TryReuseDispatch_kill_liveness[of g1 nd callee effect "GetControlInput g callee" cp
             "num_functions candidate" input_count]
  show ?thesis
    unfolding g' using f l assms(2) by (auto simp: fresh_calls_def)
qed

lemma CreateOrReuseDispatch_fresh:
  assumes "CreateOrReuseDispatch g nd callee candidate ins input_count = Some (g', calls)"
    and "GetControlInput g callee < length g"
  shows "fresh_calls g g' calls"
proof -
  from assms(1) obtain reused g1 calls1 where
    t: "TryReuseDispatch g nd callee candidate ins input_count = Some (reused, g1, calls1)"
    and r: "(if reused then Some (g1, calls1)
             else Some (CreateDispatch g1 nd callee (target_functions candidate)
                          (GetControlInput g1 nd) ins input_count)) = Some (g', calls)"
    by (auto simp: CreateOrReuseDispatch_def split: Option.bind_splits)
  show ?thesis
  proof (cases reused)
    case True
    with t r TryReuseDispatch_fresh[of g nd callee candidate ins input_count g1 calls1] assms(2)
    show ?thesis by simp
  next
    case False
    with t have "g1 = g"
      by (auto simp: TryReuseDispatch_def Let_def
               split: if_splits prod.splits Option.bind_splits)
    with False r have "CreateDispatch g nd callee (target_functions candidate)
                   (GetControlInput g nd) ins input_count = (g', calls)"
      by simp
    from CreateDispatch_fresh[OF this] show ?thesis by simp
  qed
qed

lemma InlineCandidate_projections_keeps:
  "InlineCandidate_projections g calls = (g', ss, es) \<Longrightarrow> keeps_liveness g g'"
proof (induction calls arbitrary: g g' ss es)
  case Nil
  then show ?case by (simp add: keeps_liveness_refl)
next
  case (Cons call rest)
  let ?g2 = "g @ [\<lparr>operator = IfSuccess, inputs = [call], killed = False\<rparr>,
                  \<lparr>operator = IfException, inputs = [call, call], killed = False\<rparr>]"
  obtain g'' ss' es' where rec: "InlineCandidate_projections ?g2 rest = (g'', ss', es')"
    by (cases "InlineCandidate_projections ?g2 rest")
  with Cons.prems have "g' = g''" by (simp add: NewNode_def Let_def)
  with keeps_liveness_trans[OF keeps_liveness_append Cons.IH[OF rec]] show ?case by simp
qed

lemma InlineCandidate_expand_fresh:
  assumes "InlineCandidate_expand cfg c g = Some (val, calls, g')"
    and "ReplaceWithValue_keeps_liveness cfg"
    and "GetControlInput g (GetValueInput g (node c) 0) < length g"
  shows "fresh_calls g g' calls"
proof -
  let ?nd = "node c"
  let ?n = "num_functions c"
  note rk = assms(2)[unfolded ReplaceWithValue_keeps_liveness_def, rule_format]
  from assms(1) obtain g1 where
    d: "CreateOrReuseDispatch g ?nd (GetValueInput g ?nd 0) c
          (map (InputAt g ?nd) [0..<InputCount g ?nd]) (InputCount g ?nd) = Some (g1, calls)"
    by (auto simp: InlineCandidate_expand_def Let_def
             split: prod.splits option.splits Option.bind_splits)
  note f1 = CreateOrReuseDispatch_fresh[OF d assms(3)]
  obtain g2 ss where x: "(case IsExceptionalCall cfg g1 ?nd of
               Some if_exception \<Rightarrow>
                 (let (ga, if_successes, if_exceptions) = InlineCandidate_projections g1 calls;
                      (exception_control, gb) = NewNode ga (Merge ?n) if_exceptions;
                      (exception_effect, gc) =
                        NewNode gb (EffectPhi ?n) (if_exceptions @ [exception_control]);
                      (exception_value, gd) =
                        NewNode gc (Phi ?n) (if_exceptions @ [exception_control])
                  in (ReplaceWithValue cfg gd if_exception exception_value exception_effect
                        exception_control,
                      if_successes))
             | None \<Rightarrow> (g1, calls)) = (g2, ss)"
    by (cases "(case IsExceptionalCall cfg g1 ?nd of
               Some if_exception \<Rightarrow>
                 (let (ga, if_successes, if_exceptions) = InlineCandidate_projections g1 calls;
                      (exception_control, gb) = NewNode ga (Merge ?n) if_exceptions;
                      (exception_effect, gc) =
                        NewNode gb (EffectPhi ?n) (if_exceptions @ [exception_control]);
                      (exception_value, gd) =
                        NewNode gc (Phi ?n) (if_exceptions @ [exception_control])
                  in (ReplaceWithValue cfg gd if_exception exception_value exception_effect
                        exception_control,
                      if_successes))
             | None \<Rightarrow> (g1, calls))")
  have k2: "keeps_liveness g1 g2"
  proof (cases "IsExceptionalCall cfg g1 ?nd")
    case None
    with x show ?thesis by (simp add: keeps_liveness_refl)
  next
    case (Some if_exception)
    obtain ga ss' es where p: "InlineCandidate_projections g1 calls = (ga, ss', es)"
      by (cases "InlineCandidate_projections g1 calls")
    let ?gd = "ga @ [\<lparr>operator = Merge ?n, inputs = es, killed = False\<rparr>,
                     \<lparr>operator = EffectPhi ?n, inputs = es @ [length ga], killed = False\<rparr>,
                     \<lparr>operator = Phi ?n, inputs = es @ [length ga], killed = False\<rparr>]"
    from x Some p have "g2 = ReplaceWithValue cfg ?gd if_exception (Suc (Suc (length ga)))
                               (Suc (length ga)) (length ga)"
      by (simp add: NewNode_def Let_def)
    then have "keeps_liveness ?gd g2" using rk by simp
    from keeps_liveness_trans[OF keeps_liveness_trans[OF
           InlineCandidate_projections_keeps[OF p] keeps_liveness_append] this]
    show ?thesis .
  qed
  let ?g5 = "g2 @ [\<lparr>operator = Merge ?n, inputs = ss, killed = False\<rparr>,
                   \<lparr>operator = EffectPhi ?n, inputs = calls @ [length g2], killed = False\<rparr>,
                   \<lparr>operator = Phi ?n, inputs = calls @ [length g2], killed = False\<rparr>]"
  from assms(1) d x have "g' = ReplaceWithValue cfg ?g5 ?nd (Suc (Suc (length g2)))
                                 (Suc (length g2)) (length g2)"
    by (auto simp: InlineCandidate_expand_def NewNode_def Let_def)
  then have "keeps_liveness ?g5 g'" using rk by simp
  from keeps_liveness_trans[OF keeps_liveness_trans[OF k2 keeps_liveness_append] this]
  have "keeps_liveness g1 g'" .
  with f1 show ?thesis by (rule fresh_calls_keeps)
qed


lemma InlineCandidate_call_liveness:
  assumes "ReduceJSCall_keeps_liveness cfg" and "call < length (graph st)"
  shows "length (graph st) \<le> length (graph (InlineCandidate_call cfg fi call f can st))
    \<and> (\<forall>n<length (graph st). n \<noteq> call \<longrightarrow>
          killed (graph (InlineCandidate_call cfg fi call f can st) ! n) = killed (graph st ! n))
    \<and> killed (graph (InlineCandidate_call cfg fi call f can st) ! call) =
         (killed (graph st ! call)
          \<or> ((fi \<or> (can \<and> cumulative_count st
                                < FLAG_max_inlined_bytecode_size_cumulative cfg))
              \<and> Changed (fst (ReduceJSCall cfg (graph st) call))))"
proof -
  obtain r g' where rj: "ReduceJSCall cfg (graph st) call = (r, g')"
    by (cases "ReduceJSCall cfg (graph st) call")
  have k: "keeps_liveness (graph st) g'"
    using assms(1) rj unfolding ReduceJSCall_keeps_liveness_def by (metis snd_conv)
  then have l: "length (graph st) \<le> length g'"
    and e: "\<forall>n<length (graph st). killed (g' ! n) = killed (graph st ! n)"
    by (simp_all add: keeps_liveness_def)
  from l assms(2) have c: "call < length g'" by simp
  show ?thesis
    using rj l e c assms(2)
    by (auto simp: InlineCandidate_call_def Kill_def)
qed

lemma InlineCandidate_calls_liveness:
  assumes "ReduceJSCall_keeps_liveness cfg"
  shows "distinct (map ((!) calls) is) \<Longrightarrow> \<forall>i\<in>set is. calls ! i < length (graph st) \<Longrightarrow>
     length (graph st) \<le> length (graph (InlineCandidate_calls cfg fi c calls is st))
     \<and> (\<forall>n<length (graph st). n \<notin> (!) calls ` set is \<longrightarrow>
           killed (graph (InlineCandidate_calls cfg fi c calls is st) ! n)
             = killed (graph st ! n))
     \<and> (\<forall>k<length is.
           killed (graph (InlineCandidate_calls cfg fi c calls is st) ! (calls ! (is ! k))) =
             (killed (graph st ! (calls ! (is ! k)))
              \<or> ((fi \<or> (can_inline_function c ! (is ! k)
                         \<and> cumulative_count (InlineCandidate_calls cfg fi c calls (take k is) st)
                             < FLAG_max_inlined_bytecode_size_cumulative cfg))
                  \<and> Changed (fst (ReduceJSCall cfg
                         (graph (InlineCandidate_calls cfg fi c calls (take k is) st))
                         (calls ! (is ! k)))))))"
proof (induction "is" arbitrary: st)
  case Nil
  then show ?case by simp
next
  case (Cons i rest)
  let ?st1 = "InlineCandidate_call cfg fi (calls ! i) (target_functions c ! i)
                (can_inline_function c ! i) st"
  let ?fin = "InlineCandidate_calls cfg fi c calls rest ?st1"
  have ci: "calls ! i < length (graph st)" using Cons.prems(2) by simp
  note r = InlineCandidate_call_liveness[OF assms ci, of fi "target_functions c ! i"
             "can_inline_function c ! i"]
  from r have l1: "length (graph st) \<le> length (graph ?st1)" by blast
  from r have o1: "\<forall>n<length (graph st). n \<noteq> calls ! i \<longrightarrow>
          killed (graph ?st1 ! n) = killed (graph st ! n)"
    by blast
  from r have s1: "killed (graph ?st1 ! (calls ! i)) =
         (killed (graph st ! (calls ! i))
          \<or> ((fi \<or> (can_inline_function c ! i \<and> cumulative_count st
                                < FLAG_max_inlined_bytecode_size_cumulative cfg))
              \<and> Changed (fst (ReduceJSCall cfg (graph st) (calls ! i)))))"
    by blast
  have d: "distinct (map ((!) calls) rest)" and ni: "calls ! i \<notin> (!) calls ` set rest"
    using Cons.prems(1) by auto
  have b: "\<forall>j\<in>set rest. calls ! j < length (graph ?st1)"
    using Cons.prems(2) l1 by auto
  note IH = Cons.IH[OF d b]
  from IH have l2: "length (graph ?st1) \<le> length (graph ?fin)" by blast
  from IH have o2: "\<forall>n<length (graph ?st1). n \<notin> (!) calls ` set rest \<longrightarrow>
           killed (graph ?fin ! n) = killed (graph ?st1 ! n)"
    by blast
  from IH have s2: "\<forall>k<length rest.
           killed (graph ?fin ! (calls ! (rest ! k))) =
             (killed (graph ?st1 ! (calls ! (rest ! k)))
              \<or> ((fi \<or> (can_inline_function c ! (rest ! k)
                         \<and> cumulative_count (InlineCandidate_calls cfg fi c calls (take k rest) ?st1)
                             < FLAG_max_inlined_bytecode_size_cumulative cfg))
                  \<and> Changed (fst (ReduceJSCall cfg
                         (graph (InlineCandidate_calls cfg fi c calls (take k rest) ?st1))
                         (calls ! (rest ! k))))))"
    by blast
  have g1: "length (graph st)
              \<le> length (graph (InlineCandidate_calls cfg fi c calls (i # rest) st))"
    using l1 l2 by simp
  have g2: "\<forall>n<length (graph st). n \<notin> (!) calls ` set (i # rest) \<longrightarrow>
           killed (graph (InlineCandidate_calls cfg fi c calls (i # rest) st) ! n)
             = killed (graph st ! n)"
    using o1 o2 l1 by auto
  have g3: "killed (graph (InlineCandidate_calls cfg fi c calls (i # rest) st)
                      ! (calls ! ((i # rest) ! k))) =
             (killed (graph st ! (calls ! ((i # rest) ! k)))
              \<or> ((fi \<or> (can_inline_function c ! ((i # rest) ! k)
                         \<and> cumulative_count
                               (InlineCandidate_calls cfg fi c calls (take k (i # rest)) st)
                             < FLAG_max_inlined_bytecode_size_cumulative cfg))
                  \<and> Changed (fst (ReduceJSCall cfg
                         (graph (InlineCandidate_calls cfg fi c calls (take k (i # rest)) st))
                         (calls ! ((i # rest) ! k))))))"
    if k: "k < length (i # rest)" for k
  proof (cases k)
    case 0
    have "killed (graph ?fin ! (calls ! i)) = killed (graph ?st1 ! (calls ! i))"
      using o2 ni ci l1 by auto
    with s1 0 show ?thesis by simp
  next
    case (Suc k')
    with k have k': "k' < length rest" by simp
    then have m: "rest ! k' \<in> set rest" by simp
    have ne: "calls ! (rest ! k') \<noteq> calls ! i" using ni m by (metis imageI)
    have lt: "calls ! (rest ! k') < length (graph st)" using Cons.prems(2) m by simp
    have "killed (graph ?st1 ! (calls ! (rest ! k'))) = killed (graph st ! (calls ! (rest ! k')))"
      using o1 ne lt by simp
    with s2 k' Suc show ?thesis by simp
  qed
  from g1 g2 g3 show ?case by blast
qed

lemma InlineCandidate_calls_dead:
  assumes "ReduceJSCall_keeps_liveness cfg" and "distinct calls"
    and "\<forall>k\<in>set calls. k < length (graph st) \<and> \<not> killed (graph st ! k)"
    and "i < length calls"
  shows "IsDead (graph (InlineCandidate_calls cfg fi c calls [0..<length calls] st)) (calls ! i) =
     ((fi \<or> (can_inline_function c ! i
              \<and> cumulative_count (InlineCandidate_calls cfg fi c calls [0..<i] st)
                  < FLAG_max_inlined_bytecode_size_cumulative cfg))
      \<and> Changed (fst (ReduceJSCall cfg
             (graph (InlineCandidate_calls cfg fi c calls [0..<i] st)) (calls ! i))))"
proof -
  have d: "distinct (map ((!) calls) [0..<length calls])"
    using assms(2) by (simp add: map_nth)
  have b: "\<forall>j\<in>set [0..<length calls]. calls ! j < length (graph st)"
    using assms(3) by simp
  note l = InlineCandidate_calls_liveness[OF assms(1) d b, of fi c]
  from l assms(4) have "killed (graph (InlineCandidate_calls cfg fi c calls [0..<length calls] st)
                      ! (calls ! ([0..<length calls] ! i))) =
             (killed (graph st ! (calls ! ([0..<length calls] ! i)))
              \<or> ((fi \<or> (can_inline_function c ! ([0..<length calls] ! i)
                         \<and> cumulative_count
                               (InlineCandidate_calls cfg fi c calls (take i [0..<length calls]) st)
                             < FLAG_max_inlined_bytecode_size_cumulative cfg))
                  \<and> Changed (fst (ReduceJSCall cfg
                         (graph (InlineCandidate_calls cfg fi c calls
                                   (take i [0..<length calls]) st))
                         (calls ! ([0..<length calls] ! i))))))"
    by simp
  moreover have "[0..<length calls] ! i = i" using assms(4) by simp
  moreover have "take i [0..<length calls] = [0..<i]" using assms(4) by (simp add: take_upt)
  moreover have "\<not> killed (graph st ! (calls ! i))" using assms(3,4) by simp
  ultimately show ?thesis by (simp add: IsDead_def)
qed

section \<open>C1: the comparator\<close>

text \<open>
  C1. The backlog comparator is a strict weak ordering (irreflexive, transitive, and with a
  transitive incomparability relation); a candidate with known frequency comes before one
  with unknown frequency; of two known frequencies the higher comes first; and for two
  unknown or two equal known frequencies the candidate with the larger call-node id comes
  first.
\<close>

theorem CandidateCompare_strict_weak_order:
  fixes a b c :: "('f::linorder) Candidate"
  shows "(\<not> CandidateCompare a a)
    \<and> (CandidateCompare a b \<and> CandidateCompare b c \<longrightarrow> CandidateCompare a c)
    \<and> ((\<not> CandidateCompare a b \<and> \<not> CandidateCompare b a)
        \<and> (\<not> CandidateCompare b c \<and> \<not> CandidateCompare c b)
        \<longrightarrow> (\<not> CandidateCompare a c \<and> \<not> CandidateCompare c a))
    \<and> (IsKnown (frequency a) \<and> IsUnknown (frequency b)
        \<longrightarrow> CandidateCompare a b \<and> \<not> CandidateCompare b a)
    \<and> (frequency a = Known x \<and> frequency b = Known y \<and> x > y
        \<longrightarrow> CandidateCompare a b \<and> \<not> CandidateCompare b a)
    \<and> ((IsUnknown (frequency a) \<and> IsUnknown (frequency b)) \<or> 
        (frequency a = Known x \<and> frequency b = Known x)
        \<longrightarrow> CandidateCompare a b = (node a > node b))"
proof (intro conjI impI)
  show "\<not> CandidateCompare a a" by (rule CandidateCompare_irrefl)
next
  assume "CandidateCompare a b \<and> CandidateCompare b c"
  then show "CandidateCompare a c" using CandidateCompare_trans by blast
next
  assume h: "(\<not> CandidateCompare a b \<and> \<not> CandidateCompare b a)
        \<and> (\<not> CandidateCompare b c \<and> \<not> CandidateCompare c b)"
  then have "frequency a = frequency c \<and> node a = node c"
    using CandidateCompare_equiv_iff[of a b] CandidateCompare_equiv_iff[of b c] by simp
  then show "\<not> CandidateCompare a c" "\<not> CandidateCompare c a"
    using CandidateCompare_equiv_iff[of a c] by simp_all
next
  assume "IsKnown (frequency a) \<and> IsUnknown (frequency b)"
  then show "CandidateCompare a b" "\<not> CandidateCompare b a"
    by (cases "frequency a"; cases "frequency b"; simp add: CandidateCompare_def IsKnown_def)+
next
  assume "frequency a = Known x \<and> frequency b = Known y \<and> x > y"
  then show "CandidateCompare a b" "\<not> CandidateCompare b a"
    by (auto simp: CandidateCompare_def)
next
  assume "(IsUnknown (frequency a) \<and> IsUnknown (frequency b)) \<or> 
        (frequency a = Known x \<and> frequency b = Known x)"
  then show "CandidateCompare a b = (node a > node b)"
    by (cases "frequency a"; cases "frequency b"; simp add: CandidateCompare_def)
qed

section \<open>C2: the drain step\<close>


section \<open>C3: the cumulative counter\<close>

text \<open>
  C3, with the arithmetic of \<^verbatim>\<open>int\<close>. Over every sequence of Reduce and Finalize operations
  the counter ends as the counter at the start plus the bytecode sizes of the targets
  whose substitution the inliner reported as a change, in the arithmetic of \<^verbatim>\<open>int\<close>; as
  long as this sum is at most \<^verbatim>\<open>kMaxInt\<close>, the counter is that sum in the integers and does
  not decrease from any point of the sequence to a later one. A Reduce that substitutes a
  candidate ends as that substitution ends, and every other Reduce reports no change and
  leaves the counter as it is. The drain step leaves the counter as it is, or ends as one
  substitution that reports a change ends, of a candidate of the backlog, started with
  the counter unchanged: a discarded, a skipped and a failed candidate add nothing. A
  substitution of a candidate with one target adds the size of that target when the
  inliner reports a change and nothing when it does not; with several targets it is the
  loop over the specialized calls of the expansion, where each round adds the size of its
  target when the call is handed to the inliner and the inliner reports a change, and
  nothing otherwise. When no call of the inliner reports a change, the counter stays as it
  is over every sequence of operations.
\<close>

theorem cumulative_count_added:
  fixes st :: "('f::linorder) Heuristic"
  shows "(is_int (cumulative_count st) \<and> run cfg ops st = Some st' \<longrightarrow>
            cumulative_count st' = wrap_int (cumulative_count st + int (run_added cfg ops st)))
    \<and> (is_int (cumulative_count st)
        \<and> cumulative_count st + int (run_added cfg (ops1 @ ops2) st) \<le> kMaxInt
        \<and> run cfg ops1 st = Some st1 \<and> run cfg ops2 st1 = Some st2 \<longrightarrow>
            cumulative_count st1 = cumulative_count st + int (run_added cfg ops1 st)
            \<and> cumulative_count st2 = cumulative_count st1 + int (run_added cfg ops2 st1)
            \<and> cumulative_count st \<le> cumulative_count st1
            \<and> cumulative_count st1 \<le> cumulative_count st2)
    \<and> (Reduce_substitution cfg nd st = Some (c, fi) \<longrightarrow>
            Reduce cfg nd st = InlineCandidate cfg c fi (st\<lparr>seen := insert nd (seen st)\<rparr>))
    \<and> (Reduce_substitution cfg nd st = None \<and> Reduce cfg nd st = Some (r, st') \<longrightarrow>
            r = NoChange \<and> cumulative_count st' = cumulative_count st)
    \<and> (Finalize cfg st = Some st' \<longrightarrow>
            cumulative_count st' = cumulative_count st
            \<or> (\<exists>b\<in>set (candidates st). \<exists>st0 r0.
                  cumulative_count st0 = cumulative_count st \<and> Changed r0
                  \<and> InlineCandidate cfg b False st0 = Some (r0, st')))
    \<and> (num_functions c = 1 \<longrightarrow>
          InlineCandidate cfg c fi st =
            Some (fst (ReduceJSCall cfg (graph st) (node c)),
                  if Changed (fst (ReduceJSCall cfg (graph st) (node c)))
                  then st\<lparr>graph := snd (ReduceJSCall cfg (graph st) (node c)),
                          cumulative_count :=
                            wrap_int (cumulative_count st
                              + int (bytecode_array_length
                                       (target_shared (target_functions c ! 0))))\<rparr>
                  else st\<lparr>graph := snd (ReduceJSCall cfg (graph st) (node c))\<rparr>))
    \<and> (num_functions c \<noteq> 1 \<longrightarrow>
          InlineCandidate cfg c fi st =
            (case InlineCandidate_expand cfg c (graph st) of
               None \<Rightarrow> None
             | Some (val, calls, g) \<Rightarrow>
                 Some (Replace val,
                       InlineCandidate_calls cfg fi c calls [0..<num_functions c]
                         (st\<lparr>graph := g\<rparr>))))
    \<and> InlineCandidate_calls cfg fi c calls (i # rest) st =
         InlineCandidate_calls cfg fi c calls rest
           (InlineCandidate_call cfg fi (calls ! i) (target_functions c ! i)
              (can_inline_function c ! i) st)
    \<and> cumulative_count (InlineCandidate_call cfg fi call f can st) =
         (if (fi \<or> (can \<and> cumulative_count st
                              < FLAG_max_inlined_bytecode_size_cumulative cfg))
             \<and> Changed (fst (ReduceJSCall cfg (graph st) call))
          then wrap_int (cumulative_count st + int (bytecode_array_length (target_shared f)))
          else cumulative_count st)
    \<and> ((\<forall>g n. \<not> Changed (fst (ReduceJSCall cfg g n))) \<and> run cfg ops st = Some st'
         \<longrightarrow> cumulative_count st' = cumulative_count st)"
proof (intro conjI impI)
  assume "is_int (cumulative_count st) \<and> run cfg ops st = Some st'"
  then show "cumulative_count st' = wrap_int (cumulative_count st + int (run_added cfg ops st))"
    using run_added_eq by blast
next
  assume a: "is_int (cumulative_count st)
        \<and> cumulative_count st + int (run_added cfg (ops1 @ ops2) st) \<le> kMaxInt
        \<and> run cfg ops1 st = Some st1 \<and> run cfg ops2 st1 = Some st2"
  then have m: "cumulative_count st1 = cumulative_count st + int (run_added cfg ops1 st)
    \<and> cumulative_count st2 = cumulative_count st1 + int (run_added cfg ops2 st1)
    \<and> cumulative_count st \<le> cumulative_count st1
    \<and> cumulative_count st1 \<le> cumulative_count st2"
    using run_monotone[of st cfg ops1 ops2 st1 st2] by blast
  from m show "cumulative_count st1 = cumulative_count st + int (run_added cfg ops1 st)"
    by blast
  from m show "cumulative_count st2 = cumulative_count st1 + int (run_added cfg ops2 st1)"
    by blast
  from m show "cumulative_count st \<le> cumulative_count st1" by blast
  from m show "cumulative_count st1 \<le> cumulative_count st2" by blast
next
  assume "Reduce_substitution cfg nd st = Some (c, fi)"
  then show "Reduce cfg nd st = InlineCandidate cfg c fi (st\<lparr>seen := insert nd (seen st)\<rparr>)"
    by (rule Reduce_substitution_Some)
next
  assume a: "Reduce_substitution cfg nd st = None \<and> Reduce cfg nd st = Some (r, st')"
  then have n: "r = NoChange \<and> cumulative_count st' = cumulative_count st \<and> graph st' = graph st"
    using Reduce_substitution_None[of cfg nd st r st'] by blast
  from n show "r = NoChange" by blast
  from n show "cumulative_count st' = cumulative_count st" by blast
next
  assume "Finalize cfg st = Some st'"
  then have "Finalize_loop cfg (candidates st) st = Some st'" by (simp add: Finalize_eq_loop)
  from Finalize_loop_substitution[OF this]
  show "cumulative_count st' = cumulative_count st
            \<or> (\<exists>b\<in>set (candidates st). \<exists>st0 r0.
                  cumulative_count st0 = cumulative_count st \<and> Changed r0
                  \<and> InlineCandidate cfg b False st0 = Some (r0, st'))" .
next
  assume "num_functions c = 1"
  then show "InlineCandidate cfg c fi st =
            Some (fst (ReduceJSCall cfg (graph st) (node c)),
                  if Changed (fst (ReduceJSCall cfg (graph st) (node c)))
                  then st\<lparr>graph := snd (ReduceJSCall cfg (graph st) (node c)),
                          cumulative_count :=
                            wrap_int (cumulative_count st
                              + int (bytecode_array_length
                                       (target_shared (target_functions c ! 0))))\<rparr>
                  else st\<lparr>graph := snd (ReduceJSCall cfg (graph st) (node c))\<rparr>)"
    by (rule InlineCandidate_mono_delta)
next
  assume "num_functions c \<noteq> 1"
  then show "InlineCandidate cfg c fi st =
            (case InlineCandidate_expand cfg c (graph st) of
               None \<Rightarrow> None
             | Some (val, calls, g) \<Rightarrow>
                 Some (Replace val,
                       InlineCandidate_calls cfg fi c calls [0..<num_functions c]
                         (st\<lparr>graph := g\<rparr>)))"
    by (rule InlineCandidate_poly)
next
  show "InlineCandidate_calls cfg fi c calls (i # rest) st =
         InlineCandidate_calls cfg fi c calls rest
           (InlineCandidate_call cfg fi (calls ! i) (target_functions c ! i)
              (can_inline_function c ! i) st)"
    by simp
next
  show "cumulative_count (InlineCandidate_call cfg fi call f can st) =
         (if (fi \<or> (can \<and> cumulative_count st
                              < FLAG_max_inlined_bytecode_size_cumulative cfg))
             \<and> Changed (fst (ReduceJSCall cfg (graph st) call))
          then wrap_int (cumulative_count st + int (bytecode_array_length (target_shared f)))
          else cumulative_count st)"
    by (rule InlineCandidate_call_delta)
next
  assume "(\<forall>g n. \<not> Changed (fst (ReduceJSCall cfg g n))) \<and> run cfg ops st = Some st'"
  then show "cumulative_count st' = cumulative_count st"
    using run_unchanged by blast
qed

section \<open>C4: the specialized calls\<close>

text \<open>
  C4. A substitution of a candidate with N targets, N other than one, expands the call:
  the N specialized calls are the calls that CreateOrReuseDispatch returns, they are new
  nodes of the graph, different from each other and live after the expansion; then every
  specialized call goes through one round of the loop. In its round a call is handed to
  the inliner exactly when inlining is forced or its target is flagged inlinable and the
  counter, as it stands in that round, is below the cumulative cap. A call that is not
  handed over leaves the state as it is. When the inliner reports a change, the call node
  is killed in the inliner's graph and the size of the target is added to the counter;
  when it reports none, the state is the inliner's graph with the counter unchanged. So
  at the end of the substitution a specialized call is dead exactly when it was handed to
  the inliner in its round and the inliner reported a change, and every other specialized
  call is a live call of the graph. The test is made again in every round: a substitution
  that brings the counter to the cap keeps a later, inlinable call from the inliner. The
  inliner and the reducer service ReplaceWithValue are taken to mark no node of the graph
  dead and to revive none, and the control input of the callee to be a node of the graph.
  On a well-formed call site the expansion returns, so that the substitution returns and
  all of this holds of its result.
\<close>

theorem InlineCandidate_specialized_calls:
  shows "(num_functions c \<noteq> 1 \<longrightarrow>
          InlineCandidate cfg c fi st =
            (case InlineCandidate_expand cfg c (graph st) of
               None \<Rightarrow> None
             | Some (val, calls, g) \<Rightarrow>
                 Some (Replace val,
                       InlineCandidate_calls cfg fi c calls [0..<num_functions c]
                         (st\<lparr>graph := g\<rparr>))))
    \<and> (InlineCandidate_expand cfg c (graph st) = Some (val, calls, g) \<longrightarrow>
          length calls = num_functions c
          \<and> (\<exists>g1. CreateOrReuseDispatch (graph st) (node c) (GetValueInput (graph st) (node c) 0) c
                      (map (InputAt (graph st) (node c)) [0..<InputCount (graph st) (node c)])
                      (InputCount (graph st) (node c)) = Some (g1, calls)))
    \<and> (ReplaceWithValue_keeps_liveness cfg \<and> ReduceJSCall_keeps_liveness cfg
        \<and> num_functions c \<noteq> 1
        \<and> GetControlInput (graph st) (GetValueInput (graph st) (node c) 0) < length (graph st)
        \<and> InlineCandidate_expand cfg c (graph st) = Some (val, calls, g)
        \<and> i < num_functions c \<longrightarrow>
          InlineCandidate cfg c fi st =
            Some (Replace val,
                  InlineCandidate_calls cfg fi c calls [0..<num_functions c] (st\<lparr>graph := g\<rparr>))
          \<and> distinct calls
          \<and> length (graph st) \<le> calls ! i \<and> calls ! i < length g \<and> \<not> IsDead g (calls ! i)
          \<and> IsDead (graph (InlineCandidate_calls cfg fi c calls [0..<num_functions c]
                              (st\<lparr>graph := g\<rparr>))) (calls ! i) =
              ((fi \<or> (can_inline_function c ! i
                       \<and> cumulative_count
                             (InlineCandidate_calls cfg fi c calls [0..<i] (st\<lparr>graph := g\<rparr>))
                           < FLAG_max_inlined_bytecode_size_cumulative cfg))
               \<and> Changed (fst (ReduceJSCall cfg
                      (graph (InlineCandidate_calls cfg fi c calls [0..<i] (st\<lparr>graph := g\<rparr>)))
                      (calls ! i)))))
    \<and> (ReplaceWithValue_keeps_liveness cfg \<and> ReduceJSCall_keeps_liveness cfg
        \<and> num_functions c \<noteq> 1
        \<and> call_site_wf (graph st) (node c) (num_functions c) \<longrightarrow>
          (\<exists>v cs gx.
             InlineCandidate_expand cfg c (graph st) = Some (v, cs, gx)
             \<and> InlineCandidate cfg c fi st =
                 Some (Replace v,
                       InlineCandidate_calls cfg fi c cs [0..<num_functions c] (st\<lparr>graph := gx\<rparr>))
             \<and> length cs = num_functions c \<and> distinct cs
             \<and> (\<forall>k<num_functions c.
                   length (graph st) \<le> cs ! k \<and> cs ! k < length gx \<and> \<not> IsDead gx (cs ! k)
                   \<and> IsDead (graph (InlineCandidate_calls cfg fi c cs [0..<num_functions c]
                                       (st\<lparr>graph := gx\<rparr>))) (cs ! k) =
                       ((fi \<or> (can_inline_function c ! k
                                \<and> cumulative_count
                                      (InlineCandidate_calls cfg fi c cs [0..<k]
                                         (st\<lparr>graph := gx\<rparr>))
                                    < FLAG_max_inlined_bytecode_size_cumulative cfg))
                        \<and> Changed (fst (ReduceJSCall cfg
                               (graph (InlineCandidate_calls cfg fi c cs [0..<k]
                                         (st\<lparr>graph := gx\<rparr>)))
                               (cs ! k)))))))
    \<and> (\<not> (fi \<or> (can \<and> cumulative_count st < FLAG_max_inlined_bytecode_size_cumulative cfg))
          \<longrightarrow> InlineCandidate_call cfg fi call f can st = st)
    \<and> ((fi \<or> (can \<and> cumulative_count st < FLAG_max_inlined_bytecode_size_cumulative cfg))
        \<and> ReduceJSCall cfg (graph st) call = (r, g') \<and> Changed r
          \<longrightarrow> InlineCandidate_call cfg fi call f can st =
                st\<lparr>graph := Kill g' call,
                   cumulative_count :=
                     wrap_int (cumulative_count st
                                 + int (bytecode_array_length (target_shared f)))\<rparr>
              \<and> (call < length g'
                   \<longrightarrow> IsDead (graph (InlineCandidate_call cfg fi call f can st)) call))
    \<and> ((fi \<or> (can \<and> cumulative_count st < FLAG_max_inlined_bytecode_size_cumulative cfg))
        \<and> ReduceJSCall cfg (graph st) call = (r, g') \<and> \<not> Changed r
          \<longrightarrow> InlineCandidate_call cfg fi call f can st = st\<lparr>graph := g'\<rparr>)
    \<and> InlineCandidate_calls cfg fi c calls (i # rest) st =
         InlineCandidate_calls cfg fi c calls rest
           (InlineCandidate_call cfg fi (calls ! i) (target_functions c ! i)
              (can_inline_function c ! i) st)
    \<and> (can_inline_function c ! i \<and> can_inline_function c ! j
        \<and> cumulative_count st < FLAG_max_inlined_bytecode_size_cumulative cfg
        \<and> Changed (fst (ReduceJSCall cfg (graph st) (calls ! i)))
        \<and> wrap_int (cumulative_count st
             + int (bytecode_array_length (target_shared (target_functions c ! i))))
            \<ge> FLAG_max_inlined_bytecode_size_cumulative cfg
          \<longrightarrow> InlineCandidate_calls cfg False c calls [i, j] st =
                InlineCandidate_call cfg False (calls ! i) (target_functions c ! i) True st)"
proof (intro conjI impI)
  assume "num_functions c \<noteq> 1"
  then show "InlineCandidate cfg c fi st =
            (case InlineCandidate_expand cfg c (graph st) of
               None \<Rightarrow> None
             | Some (val, calls, g) \<Rightarrow>
                 Some (Replace val,
                       InlineCandidate_calls cfg fi c calls [0..<num_functions c]
                         (st\<lparr>graph := g\<rparr>)))"
    by (rule InlineCandidate_poly)
next
  assume e: "InlineCandidate_expand cfg c (graph st) = Some (val, calls, g)"
  show "length calls = num_functions c" using e by (rule InlineCandidate_expand_length)
  show "\<exists>g1. CreateOrReuseDispatch (graph st) (node c) (GetValueInput (graph st) (node c) 0) c
                      (map (InputAt (graph st) (node c)) [0..<InputCount (graph st) (node c)])
                      (InputCount (graph st) (node c)) = Some (g1, calls)"
    using e by (rule InlineCandidate_expand_dispatch)
next
  assume a: "ReplaceWithValue_keeps_liveness cfg \<and> ReduceJSCall_keeps_liveness cfg
        \<and> num_functions c \<noteq> 1
        \<and> GetControlInput (graph st) (GetValueInput (graph st) (node c) 0) < length (graph st)
        \<and> InlineCandidate_expand cfg c (graph st) = Some (val, calls, g)
        \<and> i < num_functions c"
  then have rw: "ReplaceWithValue_keeps_liveness cfg" and rj: "ReduceJSCall_keeps_liveness cfg"
    and n: "num_functions c \<noteq> 1"
    and m: "GetControlInput (graph st) (GetValueInput (graph st) (node c) 0) < length (graph st)"
    and e: "InlineCandidate_expand cfg c (graph st) = Some (val, calls, g)"
    and i: "i < num_functions c"
    by blast+
  note len = InlineCandidate_expand_length[OF e]
  note fr = InlineCandidate_expand_fresh[OF e rw m]
  from i len have mem: "calls ! i \<in> set calls" by simp
  show "InlineCandidate cfg c fi st =
            Some (Replace val,
                  InlineCandidate_calls cfg fi c calls [0..<num_functions c] (st\<lparr>graph := g\<rparr>))"
    unfolding InlineCandidate_poly[OF n] using e by simp
  show "distinct calls" using fr by (simp add: fresh_calls_def)
  show "length (graph st) \<le> calls ! i" using fr mem by (simp add: fresh_calls_def)
  show "calls ! i < length g" using fr mem by (simp add: fresh_calls_def)
  show "\<not> IsDead g (calls ! i)" using fr mem by (simp add: fresh_calls_def IsDead_def)
  have live: "\<forall>k\<in>set calls. k < length (graph (st\<lparr>graph := g\<rparr>))
                \<and> \<not> killed (graph (st\<lparr>graph := g\<rparr>) ! k)"
    using fr by (simp add: fresh_calls_def)
  have d: "distinct calls" using fr by (simp add: fresh_calls_def)
  from i len have il: "i < length calls" by simp
  from InlineCandidate_calls_dead[OF rj d live il, of fi c]
  show "IsDead (graph (InlineCandidate_calls cfg fi c calls [0..<num_functions c]
                              (st\<lparr>graph := g\<rparr>))) (calls ! i) =
              ((fi \<or> (can_inline_function c ! i
                       \<and> cumulative_count
                             (InlineCandidate_calls cfg fi c calls [0..<i] (st\<lparr>graph := g\<rparr>))
                           < FLAG_max_inlined_bytecode_size_cumulative cfg))
               \<and> Changed (fst (ReduceJSCall cfg
                      (graph (InlineCandidate_calls cfg fi c calls [0..<i] (st\<lparr>graph := g\<rparr>)))
                      (calls ! i))))"
    unfolding len .
next
  assume a: "ReplaceWithValue_keeps_liveness cfg \<and> ReduceJSCall_keeps_liveness cfg
        \<and> num_functions c \<noteq> 1
        \<and> call_site_wf (graph st) (node c) (num_functions c)"
  then have rw: "ReplaceWithValue_keeps_liveness cfg" and rj: "ReduceJSCall_keeps_liveness cfg"
    and n: "num_functions c \<noteq> 1"
    and wf: "call_site_wf (graph st) (node c) (num_functions c)"
    by blast+
  from InlineCandidate_expand_returns[OF wf, of cfg] obtain v cs gx where
    e: "InlineCandidate_expand cfg c (graph st) = Some (v, cs, gx)"
    by blast
  note len = InlineCandidate_expand_length[OF e]
  note fr = InlineCandidate_expand_fresh[OF e rw call_site_wf_merge[OF wf]]
  have d: "distinct cs" using fr by (simp add: fresh_calls_def)
  have live: "\<forall>k\<in>set cs. k < length (graph (st\<lparr>graph := gx\<rparr>))
                \<and> \<not> killed (graph (st\<lparr>graph := gx\<rparr>) ! k)"
    using fr by (simp add: fresh_calls_def)
  have ic: "InlineCandidate cfg c fi st =
              Some (Replace v,
                    InlineCandidate_calls cfg fi c cs [0..<num_functions c] (st\<lparr>graph := gx\<rparr>))"
    unfolding InlineCandidate_poly[OF n] using e by simp
  have each: "length (graph st) \<le> cs ! k \<and> cs ! k < length gx \<and> \<not> IsDead gx (cs ! k)
                   \<and> IsDead (graph (InlineCandidate_calls cfg fi c cs [0..<num_functions c]
                                       (st\<lparr>graph := gx\<rparr>))) (cs ! k) =
                       ((fi \<or> (can_inline_function c ! k
                                \<and> cumulative_count
                                      (InlineCandidate_calls cfg fi c cs [0..<k]
                                         (st\<lparr>graph := gx\<rparr>))
                                    < FLAG_max_inlined_bytecode_size_cumulative cfg))
                        \<and> Changed (fst (ReduceJSCall cfg
                               (graph (InlineCandidate_calls cfg fi c cs [0..<k]
                                         (st\<lparr>graph := gx\<rparr>)))
                               (cs ! k))))"
    if k: "k < num_functions c" for k
  proof -
    from k len have kl: "k < length cs" by simp
    then have mem: "cs ! k \<in> set cs" by simp
    from InlineCandidate_calls_dead[OF rj d live kl, of fi c] fr mem
    show ?thesis unfolding len by (simp add: fresh_calls_def IsDead_def)
  qed
  from e ic len d each
  show "\<exists>v cs gx.
             InlineCandidate_expand cfg c (graph st) = Some (v, cs, gx)
             \<and> InlineCandidate cfg c fi st =
                 Some (Replace v,
                       InlineCandidate_calls cfg fi c cs [0..<num_functions c] (st\<lparr>graph := gx\<rparr>))
             \<and> length cs = num_functions c \<and> distinct cs
             \<and> (\<forall>k<num_functions c.
                   length (graph st) \<le> cs ! k \<and> cs ! k < length gx \<and> \<not> IsDead gx (cs ! k)
                   \<and> IsDead (graph (InlineCandidate_calls cfg fi c cs [0..<num_functions c]
                                       (st\<lparr>graph := gx\<rparr>))) (cs ! k) =
                       ((fi \<or> (can_inline_function c ! k
                                \<and> cumulative_count
                                      (InlineCandidate_calls cfg fi c cs [0..<k]
                                         (st\<lparr>graph := gx\<rparr>))
                                    < FLAG_max_inlined_bytecode_size_cumulative cfg))
                        \<and> Changed (fst (ReduceJSCall cfg
                               (graph (InlineCandidate_calls cfg fi c cs [0..<k]
                                         (st\<lparr>graph := gx\<rparr>)))
                               (cs ! k)))))"
    by blast
next
  show "InlineCandidate_call cfg fi call f can st = st"
    if "\<not> (fi \<or> (can \<and> cumulative_count st < FLAG_max_inlined_bytecode_size_cumulative cfg))"
    using that by (auto simp: InlineCandidate_call_def)
next
  assume a: "(fi \<or> (can \<and> cumulative_count st < FLAG_max_inlined_bytecode_size_cumulative cfg))
        \<and> ReduceJSCall cfg (graph st) call = (r, g') \<and> Changed r"
  then show eq: "InlineCandidate_call cfg fi call f can st =
                st\<lparr>graph := Kill g' call,
                   cumulative_count :=
                     wrap_int (cumulative_count st
                                 + int (bytecode_array_length (target_shared f)))\<rparr>"
    by (auto simp: InlineCandidate_call_def)
  show "IsDead (graph (InlineCandidate_call cfg fi call f can st)) call" if "call < length g'"
    using that eq by (simp add: IsDead_Kill)
next
  assume "(fi \<or> (can \<and> cumulative_count st < FLAG_max_inlined_bytecode_size_cumulative cfg))
        \<and> ReduceJSCall cfg (graph st) call = (r, g') \<and> \<not> Changed r"
  then show "InlineCandidate_call cfg fi call f can st = st\<lparr>graph := g'\<rparr>"
    by (auto simp: InlineCandidate_call_def)
next
  show "InlineCandidate_calls cfg fi c calls (i # rest) st =
         InlineCandidate_calls cfg fi c calls rest
           (InlineCandidate_call cfg fi (calls ! i) (target_functions c ! i)
              (can_inline_function c ! i) st)"
    by simp
next
  assume a: "can_inline_function c ! i \<and> can_inline_function c ! j
        \<and> cumulative_count st < FLAG_max_inlined_bytecode_size_cumulative cfg
        \<and> Changed (fst (ReduceJSCall cfg (graph st) (calls ! i)))
        \<and> wrap_int (cumulative_count st
             + int (bytecode_array_length (target_shared (target_functions c ! i))))
            \<ge> FLAG_max_inlined_bytecode_size_cumulative cfg"
  let ?st1 = "InlineCandidate_call cfg False (calls ! i) (target_functions c ! i) True st"
  have "cumulative_count ?st1 \<ge> FLAG_max_inlined_bytecode_size_cumulative cfg"
    using a by (simp add: InlineCandidate_call_delta)
  then have "InlineCandidate_call cfg False (calls ! j) (target_functions c ! j)
               (can_inline_function c ! j) ?st1 = ?st1"
    by (auto simp: InlineCandidate_call_def)
  then show "InlineCandidate_calls cfg False c calls [i, j] st = ?st1"
    using a by simp
qed

section \<open>C5: the polymorphism cap\<close>

text \<open>
  C5. When the callee of a call site is a value phi with more value inputs than the
  polymorphism cap, target collection returns zero targets, whatever the inputs of the phi
  are, and the collector does nothing but remember the node: it reports no change, inlines
  nothing and enqueues nothing.
\<close>

theorem Reduce_phi_over_cap:
  assumes "operator (graph st ! InputAt (graph st) nd 0) = Phi value_input_count"
    and "value_input_count > kMaxCallPolymorphism cfg"
  shows "CollectFunctions (graph st) (InputAt (graph st) nd 0) (kMaxCallPolymorphism cfg) = []
    \<and> Reduce cfg nd st =
        Some (NoChange,
              if IsInlineeOpcode (opcode (graph st) nd)
              then st\<lparr>seen := insert nd (seen st)\<rparr> else st)"
proof -
  have cf: "CollectFunctions (graph st) (InputAt (graph st) nd 0) (kMaxCallPolymorphism cfg) = []"
    using assms by (simp add: CollectFunctions_def)
  have "st\<lparr>seen := insert nd (seen st)\<rparr> = st" if "nd \<in> seen st"
    using that by (simp add: insert_absorb)
  then show ?thesis
    using cf by (simp add: Reduce_def Let_def)
qed

section \<open>C6: the decision in general mode\<close>

text \<open>
  C6, with the bound of the source. In general mode, for a call site that has passed the
  earlier checks (it has targets, polymorphic inlining is allowed when there are several,
  one target at least is inlinable, not all are marked for forced inlining, and the depth
  of inlining is within the limit): if the frequency of the candidate is known and below
  the minimum frequency, the candidate is discarded; otherwise, if every target is small
  and the cumulative counter is at most the absolute cap (line 179 tests \<^verbatim>\<open><=\<close>, so a counter
  equal to the cap still passes), it is substituted at once, with inlining forced;
  otherwise it is inserted into the backlog and Reduce reports no change. The candidate has
  the targets of the call site, their inlinability flags, the frequency of the call and
  the aggregate size of the inlinable targets.
\<close>

theorem Reduce_general:
  fixes st :: "('f::linorder) Heuristic"
  assumes "IsInlineeOpcode (opcode (graph st) nd)" and "nd \<notin> seen st"
    and "CollectFunctions (graph st) (InputAt (graph st) nd 0) (kMaxCallPolymorphism cfg) = fs"
    and "fs \<noteq> []" and "length fs > 1 \<longrightarrow> FLAG_polymorphic_inlining cfg"
    and "\<exists>f\<in>set fs. CanInlineFunction cfg (target_shared f)"
    and "\<exists>f\<in>set fs. \<not> force_inline (target_shared f)"
    and "Reduce_levels cfg (graph st) (GetFrameStateInput (graph st) nd) 0 = Some True"
    and "mode st = kGeneralInlining"
    and "candidate = \<lparr>node = nd, target_functions = fs,
                       can_inline_function = map (\<lambda>f. CanInlineFunction cfg (target_shared f)) fs,
                       frequency = frequency_of (operator (graph st ! nd)),
                       total_size = inlinable_size cfg fs\<rparr>"
    and "st1 = st\<lparr>seen := insert nd (seen st)\<rparr>"
  shows "Reduce cfg nd st =
           (if (\<exists>v. frequency candidate = Known v \<and> v < FLAG_min_inlining_frequency cfg)
            then Some (NoChange, st1)
            else if (\<forall>f\<in>set fs. IsSmallInlineFunction cfg (target_shared f))
                    \<and> cumulative_count st \<le> FLAG_max_inlined_bytecode_size_absolute cfg
              then InlineCandidate cfg candidate True st1
            else Some (NoChange,
                       st1\<lparr>candidates := candidates_insert candidate (candidates st)\<rparr>))"
proof -
  have t: "Reduce_targets cfg fs (False, True, True, 0, []) =
     (True, False, (\<forall>f\<in>set fs. IsSmallInlineFunction cfg (target_shared f)),
      inlinable_size cfg fs, map (\<lambda>f. CanInlineFunction cfg (target_shared f)) fs)"
    using assms(6,7) by (simp add: Reduce_targets_initial list_all_iff list_ex_iff)
  show ?thesis
    using assms(1-5,8-11)
    by (auto simp: Reduce_def Let_def t split: CallFrequency.splits)
qed

section \<open>C7: shared metadata nodes\<close>

text \<open>
  C7. Renaming in a frame state or in state values never changes a node of the given
  graph whose use count exceeds one. A node of the given graph that is changed was changed
  in place, by the mode that allows it, and had a use count of at most one, which is
  exactly one for a node that is an input of some node; in the cloning mode no node of the
  given graph changes, and a result other than the given frame state is a new node, the
  clone with the renamed input.
\<close>

theorem Duplicate_keeps_shared_nodes:
  shows "(DuplicateFrameStateAndRename g frame_state from to clone_mode = Some (r, g') \<longrightarrow>
            length g \<le> length g'
          \<and> (\<forall>n<length g. UseCount g n > 1 \<longrightarrow> g' ! n = g ! n)
          \<and> (\<forall>n<length g. g' ! n \<noteq> g ! n \<longrightarrow>
                n = frame_state \<and> clone_mode = kChangeInPlace \<and> UseCount g n \<le> 1
                \<and> ((\<exists>m<length g. n \<in> set (inputs (g ! m))) \<longrightarrow> UseCount g n = 1))
          \<and> (clone_mode = kCloneState \<longrightarrow> take (length g) g' = g)
          \<and> (r \<noteq> frame_state \<longrightarrow>
                r = length g
                \<and> g' = g @ [\<lparr>operator = operator (g ! frame_state),
                              inputs = (inputs (g ! frame_state))[kFrameStateStackInput := to],
                              killed = False\<rparr>]))
    \<and> (DuplicateStateValuesAndRename g state_values from to clone_mode = Some (r2, g2) \<longrightarrow>
            length g \<le> length g2
          \<and> (\<forall>n<length g. UseCount g n > 1 \<longrightarrow> g2 ! n = g ! n)
          \<and> (\<forall>n<length g. g2 ! n \<noteq> g ! n \<longrightarrow>
                clone_mode = kChangeInPlace \<and> UseCount g n \<le> 1))"
proof (intro conjI impI)
  assume a: "DuplicateFrameStateAndRename g frame_state from to clone_mode = Some (r, g')"
  note c = DuplicateFrameStateAndRename_cases[OF a]
  have inplace: "ReplaceInput g frame_state kFrameStateStackInput to ! n = g ! n"
    if "n \<noteq> frame_state" for n
    using that by (simp add: ReplaceInput_def)
  show "length g \<le> length g'" using c by (auto simp: ReplaceInput_def)
  show "\<forall>n<length g. UseCount g n > 1 \<longrightarrow> g' ! n = g ! n"
    using c inplace by (auto simp: nth_append) (metis inplace not_less)
  show "\<forall>n<length g. g' ! n \<noteq> g ! n \<longrightarrow>
                n = frame_state \<and> clone_mode = kChangeInPlace \<and> UseCount g n \<le> 1
                \<and> ((\<exists>m<length g. n \<in> set (inputs (g ! m))) \<longrightarrow> UseCount g n = 1)"
  proof (intro allI impI)
    fix n assume n: "n < length g" and ne: "g' ! n \<noteq> g ! n"
    from c n ne have 1: "UseCount g frame_state \<le> 1 \<and> clone_mode = kChangeInPlace
        \<and> g' = ReplaceInput g frame_state kFrameStateStackInput to"
      by (auto simp: nth_append)
    with ne inplace have 2: "n = frame_state" by metis
    have "UseCount g n = 1" if "\<exists>m<length g. n \<in> set (inputs (g ! m))"
      using that UseCount_input[of _ g n] 1 2 by force
    with 1 2 show "n = frame_state \<and> clone_mode = kChangeInPlace \<and> UseCount g n \<le> 1
                \<and> ((\<exists>m<length g. n \<in> set (inputs (g ! m))) \<longrightarrow> UseCount g n = 1)"
      by simp
  qed
  show "take (length g) g' = g" if "clone_mode = kCloneState"
    using c that by auto
  show "r = length g" if "r \<noteq> frame_state" using c that by auto
  show "g' = g @ [\<lparr>operator = operator (g ! frame_state),
                              inputs = (inputs (g ! frame_state))[kFrameStateStackInput := to],
                              killed = False\<rparr>]" if "r \<noteq> frame_state"
    using c that by auto
next
  assume a: "DuplicateStateValuesAndRename g state_values from to clone_mode = Some (r2, g2)"
  note s = DuplicateStateValuesAndRename_same[OF a]
  show "length g \<le> length g2" using s by simp
  show "\<forall>n<length g. UseCount g n > 1 \<longrightarrow> g2 ! n = g ! n" using s by simp
  show "\<forall>n<length g. g2 ! n \<noteq> g ! n \<longrightarrow> clone_mode = kChangeInPlace \<and> UseCount g n \<le> 1"
    using s by simp
qed

section \<open>C8: the rebuilt dispatch\<close>

text \<open>
  C8. For a call node and the targets of a candidate, the rebuilt dispatch, started as
  InlineCandidate starts it (with a copy of the inputs of the call and the control input of
  the call as the first fallthrough control), has the shape described above: a comparison,
  a branch and its two projections for every target but the last, the true projection as
  the control of that target's call, the false projection as the next fallthrough, and the
  remaining fallthrough as the control of the last call. It creates one comparison and
  one branch less than there are targets, leaves the nodes of the given graph as they are,
  and every specialized call has the operator and the inputs of the original call, but for
  the target and the control input.
\<close>

theorem CreateDispatch_shape:
  assumes "nd < length g" and "IsInlineeOpcode (opcode g nd)"
    and "CreateDispatch g nd callee fs (GetControlInput g nd)
           (map (InputAt g nd) [0..<InputCount g nd]) (InputCount g nd) = (g', calls)"
  shows "dispatch_shape g' (operator (g ! nd)) callee (inputs (g ! nd)) (InputCount g nd)
           (GetControlInput g nd) fs calls
    \<and> take (length g) g' = g
    \<and> length calls = length fs
    \<and> count_operator ReferenceEqual g' = count_operator ReferenceEqual g + (length fs - 1)
    \<and> count_operator Branch g' = count_operator Branch g + (length fs - 1)"
proof -
  have ins: "map (InputAt g nd) [0..<InputCount g nd] = inputs (g ! nd)"
    unfolding InputAt_def InputCount_def by (rule map_nth)
  have op: "operator (g ! nd) \<noteq> ReferenceEqual" "operator (g ! nd) \<noteq> Branch"
    using assms(2) by (auto simp: IsInlineeOpcode_def opcode_def)
  note gen = CreateDispatch_shape_gen[OF assms(1) op assms(3)[unfolded ins]]
  from gen obtain ext where "g' = g @ ext" by blast
  then have "take (length g) g' = g" by simp
  with gen show ?thesis by simp
qed

section \<open>C9: a node is processed once\<close>

text \<open>
  C9. Once Reduce has processed a call node, every later Reduce of the same node, after
  any sequence of Reduce and Finalize operations, reports no change and leaves the state
  as it is: no second candidate and no second substitution come from the node. Moreover,
  when the call nodes of the backlog are seen nodes and no two candidates of the backlog
  have the same call node, the same holds after every sequence of operations.
\<close>

theorem Reduce_once:
  fixes st :: "('f::linorder) Heuristic"
  shows "(IsInlineeOpcode (opcode (graph st) nd) \<and> Reduce cfg nd st = Some (r, st1)
          \<and> run cfg ops st1 = Some st2
          \<longrightarrow> Reduce cfg nd st2 = Some (NoChange, st2))
    \<and> (node ` set (candidates st) \<subseteq> seen st \<and> distinct (map node (candidates st))
        \<and> run cfg ops st = Some st'
          \<longrightarrow> node ` set (candidates st') \<subseteq> seen st' \<and> distinct (map node (candidates st')))"
proof (intro conjI impI)
  assume a: "IsInlineeOpcode (opcode (graph st) nd) \<and> Reduce cfg nd st = Some (r, st1)
          \<and> run cfg ops st1 = Some st2"
  then have "nd \<in> seen st1" using Reduce_keeps[of cfg nd st r st1] by blast
  then have "nd \<in> seen st2" using a run_keeps[of cfg ops st1 st2] by blast
  then show "Reduce cfg nd st2 = Some (NoChange, st2)" by (rule Reduce_seen_id)
next
  assume a: "node ` set (candidates st) \<subseteq> seen st \<and> distinct (map node (candidates st))
        \<and> run cfg ops st = Some st'"
  then have "node ` set (candidates st') \<subseteq> seen st' \<and> distinct (map node (candidates st'))"
    using run_backlog_seen[of st cfg ops st'] by blast
  then show "node ` set (candidates st') \<subseteq> seen st'" "distinct (map node (candidates st'))"
    by blast+
qed

section \<open>C10: a declined reuse changes nothing\<close>

text \<open>
  C10. When TryReuseDispatch declines, it returns the graph it was given, with no node
  created, no input replaced and no node killed, and CreateOrReuseDispatch then builds the
  new dispatch from that unchanged graph. The use search is bounded by 8: it never
  collects more than 8 uses.
\<close>

theorem TryReuseDispatch_declines:
  shows "(TryReuseDispatch g nd callee candidate ins input_count = Some (False, g', calls) \<longrightarrow>
           g' = g \<and> calls = []
           \<and> CreateOrReuseDispatch g nd callee candidate ins input_count =
               Some (CreateDispatch g nd callee (target_functions candidate)
                       (GetControlInput g nd) ins input_count))
    \<and> kMaxUses = 8
    \<and> (CollectFrameStateUniqueUses g callee frame_state uses kMaxUses = Some (ok, uses')
        \<and> length uses \<le> kMaxUses \<longrightarrow> length uses' \<le> 8)"
proof (intro conjI impI)
  assume a: "TryReuseDispatch g nd callee candidate ins input_count = Some (False, g', calls)"
  then show 1: "g' = g" and 2: "calls = []"
    by (auto simp: TryReuseDispatch_def Let_def
             split: if_splits prod.splits Option.bind_splits)
  with a show "CreateOrReuseDispatch g nd callee candidate ins input_count =
               Some (CreateDispatch g nd callee (target_functions candidate)
                       (GetControlInput g nd) ins input_count)"
    by (simp add: CreateOrReuseDispatch_def)
next
  show "kMaxUses = 8" by (simp add: kMaxUses_def)
next
  assume "CollectFrameStateUniqueUses g callee frame_state uses kMaxUses = Some (ok, uses')
        \<and> length uses \<le> kMaxUses"
  then have "length uses' \<le> kMaxUses"
    using CollectFrameStateUniqueUses_bound by blast
  then show "length uses' \<le> 8" by (simp add: kMaxUses_def)
qed

section \<open>Concrete runs\<close>

text \<open>A candidate of a given call node with a given frequency over the naturals.\<close>

definition cand :: "nat \<Rightarrow> nat CallFrequency \<Rightarrow> nat Candidate" where
  "cand n f = \<lparr>node = n, target_functions = [], can_inline_function = [],
                frequency = f, total_size = 0\<rparr>"

text \<open>
  The concrete inputs of the runs below: function descriptors of user code with bytecode
  of a given length, closures, a configuration with the frequencies taken from the natural
  numbers, a reserve factor of 1.2 and an inliner that is a parameter, and graphs.
\<close>

definition sfi :: "nat \<Rightarrow> SharedFunctionInfo" where
  "sfi n = \<lparr>HasBuiltinFunctionId = False, IsUserJavaScript = True, HasBytecodeArray = True,
            bytecode_array_length = n, force_inline = False\<rparr>"

definition fn :: "nat \<Rightarrow> nat \<Rightarrow> JSFunction" where
  "fn a n = \<lparr>address = a, shared = sfi n\<rparr>"

definition plain :: "nat Operator \<Rightarrow> nat list \<Rightarrow> nat Node" where
  "plain oper ins = \<lparr>operator = oper, inputs = ins, killed = False\<rparr>"

definition inliner_always :: "nat Graph \<Rightarrow> nat \<Rightarrow> Reduction \<times> nat Graph" where
  "inliner_always g n = (Replace n, g)"

definition inliner_never :: "nat Graph \<Rightarrow> nat \<Rightarrow> Reduction \<times> nat Graph" where
  "inliner_never g n = (NoChange, g)"

definition config :: "(nat Graph \<Rightarrow> nat \<Rightarrow> Reduction \<times> nat Graph) \<Rightarrow> nat Config" where
  "config inliner =
     \<lparr>FLAG_polymorphic_inlining = True,
      FLAG_max_inlined_bytecode_size = 500,
      FLAG_max_inlined_bytecode_size_small = 30,
      FLAG_max_inlined_bytecode_size_absolute = 5000,
      FLAG_max_inlined_bytecode_size_cumulative = 1000,
      FLAG_min_inlining_frequency = 1,
      FLAG_max_inlining_levels = 5,
      kMaxCallPolymorphism = 4,
      reserved_size = (\<lambda>n. (n * 12) div 10),
      ReduceJSCall = inliner,
      IsExceptionalCall = (\<lambda>g n. None),
      ReplaceWithValue = (\<lambda>g n v e c. g)\<rparr>"

definition heuristic :: "nat Graph \<Rightarrow> nat Heuristic" where
  "heuristic g = \<lparr>mode = kGeneralInlining, seen = {}, candidates = [], cumulative_count = 0,
                  graph = g\<rparr>"

text \<open>
  A graph with three calls of constant closures: node 0 stands for the start, nodes 1 and
  2 are the closures of sizes 10 and 50, 3 and 4 are state values, 5 is the frame state of
  the calls, 6 calls the small closure with frequency 9, 7 calls the other closure with
  unknown frequency and 8 calls it with frequency 0.
\<close>

definition graph_calls :: "nat Graph" where
  "graph_calls =
     [plain (OtherOperator 0) [],
      plain (HeapConstant (JSFunctionObject (fn 1 10))) [],
      plain (HeapConstant (JSFunctionObject (fn 2 50))) [],
      plain StateValues [],
      plain StateValues [],
      plain (FrameState JSFunctionFrame) [3, 4, 0, 0, 0, 0],
      plain (JSCall (Known 9)) [1, 0, 5, 0, 0],
      plain (JSCall Unknown) [2, 0, 5, 0, 0],
      plain (JSCall (Known 0)) [2, 0, 5, 0, 0]]"

text \<open>
  A graph with one call whose callee is a phi over two constant closures: nodes 1 and 2
  are the closures, 3 the merge, 4 the phi, 5 the effect phi, 6 and 7 state values, 8 the
  frame state with the phi as its stack input and \<open>locals\<close> as the inputs of its locals,
  and 9 the call.
\<close>

definition graph_phi :: "nat list \<Rightarrow> nat Graph" where
  "graph_phi locals =
     [plain (OtherOperator 0) [],
      plain (HeapConstant (JSFunctionObject (fn 1 10))) [],
      plain (HeapConstant (JSFunctionObject (fn 2 50))) [],
      plain (Merge 2) [0, 0],
      plain (Phi 2) [1, 2, 3],
      plain (EffectPhi 2) [0, 0, 3],
      plain StateValues [],
      plain StateValues locals,
      plain (FrameState JSFunctionFrame) [6, 7, 4, 0, 0, 0],
      plain (JSCall Unknown) [4, 0, 8, 5, 3]]"

definition cand_phi :: "nat Candidate" where
  "cand_phi = \<lparr>node = 9, target_functions = [Function (fn 1 10), Function (fn 2 50)],
               can_inline_function = [True, True], frequency = Unknown, total_size = 60\<rparr>"

definition cand7 :: "nat Candidate" where
  "cand7 = \<lparr>node = 7, target_functions = [Function (fn 2 50)], can_inline_function = [True],
            frequency = Unknown, total_size = 50\<rparr>"

definition cand6 :: "nat Candidate" where
  "cand6 = \<lparr>node = 6, target_functions = [Function (fn 1 10)], can_inline_function = [True],
            frequency = Known 9, total_size = 10\<rparr>"

text \<open>Two candidates for the drain step, of sizes 1000 and 10.\<close>

definition candA :: "nat Candidate" where
  "candA = \<lparr>node = 7, target_functions = [Function (fn 2 50)], can_inline_function = [True],
            frequency = Known 9, total_size = 1000\<rparr>"

definition candB :: "nat Candidate" where
  "candB = \<lparr>node = 6, target_functions = [Function (fn 1 10)], can_inline_function = [True],
            frequency = Known 1, total_size = 10\<rparr>"


text \<open>
  The order on candidates: a higher known frequency comes first, a known frequency comes
  before an unknown one, and the larger call-node id comes first among unknown or equal
  frequencies.
\<close>

theorem CandidateCompare_strict_weak_order_witness:
  "CandidateCompare (cand 1 (Known 10)) (cand 2 (Known 5))
   \<and> CandidateCompare (cand 2 (Known 5)) (cand 3 Unknown)
   \<and> CandidateCompare (cand 1 (Known 10)) (cand 3 Unknown)
   \<and> \<not> CandidateCompare (cand 3 Unknown) (cand 2 (Known 5))
   \<and> CandidateCompare (cand 4 Unknown) (cand 3 Unknown)
   \<and> CandidateCompare (cand 9 (Known 5)) (cand 2 (Known 5))
   \<and> \<not> CandidateCompare (cand 2 (Known 5)) (cand 2 (Known 5))"
  using CandidateCompare_strict_weak_order
          [of "cand 1 (Known 10)" "cand 2 (Known 5)" "cand 3 Unknown" 10 5]
        CandidateCompare_strict_weak_order
          [of "cand 4 Unknown" "cand 3 Unknown" "cand 3 Unknown" 5 5]
        CandidateCompare_strict_weak_order
          [of "cand 9 (Known 5)" "cand 2 (Known 5)" "cand 2 (Known 5)" 5 5]
  by (simp add: IsKnown_def cand_def CandidateCompare_def)

text \<open>The polymorphism cap, with a cap of one target and the phi over two closures.\<close>

theorem Reduce_phi_over_cap_witness:
  "operator (graph_phi [4] ! InputAt (graph_phi [4]) 9 0) = Phi 2
   \<and> CollectFunctions (graph_phi [4]) 4 1 = []
   \<and> Reduce ((config inliner_always)\<lparr>kMaxCallPolymorphism := 1\<rparr>) 9 (heuristic (graph_phi [4]))
       = Some (NoChange, (heuristic (graph_phi [4]))\<lparr>seen := {9}\<rparr>)"
proof -
  let ?cfg = "(config inliner_always)\<lparr>kMaxCallPolymorphism := 1\<rparr>"
  let ?st = "heuristic (graph_phi [4])"
  have callee: "InputAt (graph_phi [4]) 9 0 = 4" by code_simp
  have h1: "operator (graph ?st ! InputAt (graph ?st) 9 0) = Phi 2" by code_simp
  have h2: "2 > kMaxCallPolymorphism ?cfg" by code_simp
  have inl: "IsInlineeOpcode (opcode (graph ?st) 9)" by code_simp
  have g: "graph ?st = graph_phi [4]" "seen ?st = {}" "kMaxCallPolymorphism ?cfg = 1"
    by (simp_all add: heuristic_def config_def)
  from Reduce_phi_over_cap[OF h1 h2] inl h1 show ?thesis
    by (simp add: g callee)
qed

text \<open>
  One node through the collector twice: the call 7 is enqueued, the drain step substitutes
  it, the call 6 is substituted at once, and the second Reduce of 7 does nothing.
\<close>

theorem Reduce_once_witness:
  "IsInlineeOpcode (opcode (graph (heuristic graph_calls)) 7)
   \<and> Reduce (config inliner_always) 7 (heuristic graph_calls) =
       Some (NoChange, (heuristic graph_calls)\<lparr>seen := {7}, candidates := [cand7]\<rparr>)
   \<and> run (config inliner_always) [DoFinalize, DoReduce 6]
        ((heuristic graph_calls)\<lparr>seen := {7}, candidates := [cand7]\<rparr>) =
       Some ((heuristic graph_calls)\<lparr>seen := {6, 7}, cumulative_count := 60\<rparr>)
   \<and> Reduce (config inliner_always) 7
        ((heuristic graph_calls)\<lparr>seen := {6, 7}, cumulative_count := 60\<rparr>) =
       Some (NoChange, (heuristic graph_calls)\<lparr>seen := {6, 7}, cumulative_count := 60\<rparr>)
   \<and> run (config inliner_always) [DoReduce 7, DoReduce 7] (heuristic graph_calls) =
       Some ((heuristic graph_calls)\<lparr>seen := {7}, candidates := [cand7]\<rparr>)
   \<and> distinct (map node
         (candidates ((heuristic graph_calls)\<lparr>seen := {7}, candidates := [cand7]\<rparr>)))"
proof -
  let ?cfg = "config inliner_always"
  let ?init = "heuristic graph_calls"
  let ?mid = "?init\<lparr>seen := {7}, candidates := [cand7]\<rparr>"
  let ?fin = "?init\<lparr>seen := {6, 7}, cumulative_count := 60\<rparr>"
  have h1: "IsInlineeOpcode (opcode (graph ?init) 7)" by code_simp
  have h2: "Reduce ?cfg 7 ?init = Some (NoChange, ?mid)" by code_simp
  have h3: "run ?cfg [DoFinalize, DoReduce 6] ?mid = Some ?fin" by code_simp
  have i1: "node ` set (candidates ?init) \<subseteq> seen ?init" by (simp add: heuristic_def)
  have i2: "distinct (map node (candidates ?init))" by (simp add: heuristic_def)
  have i3: "run ?cfg [DoReduce 7, DoReduce 7] ?init = Some ?mid" by code_simp
  note t1 = Reduce_once[where st = ?init and nd = 7 and cfg = ?cfg and r = NoChange
              and ?st1.0 = ?mid and ops = "[DoFinalize, DoReduce 6]" and ?st2.0 = ?fin
              and st' = ?fin]
  note t2 = Reduce_once[where st = ?init and nd = 7 and cfg = ?cfg and r = NoChange
              and ?st1.0 = ?mid and ops = "[DoReduce 7, DoReduce 7]" and ?st2.0 = ?mid
              and st' = ?mid]
  from t1 h1 h2 h3 have c1: "Reduce ?cfg 7 ?fin = Some (NoChange, ?fin)" by blast
  from t2 i1 i2 i3 have c2: "distinct (map node (candidates ?mid))" by blast
  from h1 h2 h3 c1 i3 c2 show ?thesis by blast
qed

text \<open>
  A declined reuse: the phi is used nine times in the locals of the frame state, more than
  the eight uses the search collects.
\<close>

theorem TryReuseDispatch_declines_witness:
  "TryReuseDispatch (graph_phi [4, 4, 4, 4, 4, 4, 4, 4, 4]) 9 4 cand_phi [4, 0, 8, 5, 3] 5 =
     Some (False, graph_phi [4, 4, 4, 4, 4, 4, 4, 4, 4], [])
   \<and> CreateOrReuseDispatch (graph_phi [4, 4, 4, 4, 4, 4, 4, 4, 4]) 9 4 cand_phi [4, 0, 8, 5, 3] 5 =
       Some (CreateDispatch (graph_phi [4, 4, 4, 4, 4, 4, 4, 4, 4]) 9 4 (target_functions cand_phi)
               (GetControlInput (graph_phi [4, 4, 4, 4, 4, 4, 4, 4, 4]) 9) [4, 0, 8, 5, 3] 5)
   \<and> CollectFrameStateUniqueUses (graph_phi [4, 4, 4, 4, 4, 4, 4, 4, 4]) 4 8 [] kMaxUses =
       Some (False, [(8, 2), (7, 0), (7, 1), (7, 2), (7, 3), (7, 4), (7, 5), (7, 6)])
   \<and> length ([(8, 2), (7, 0), (7, 1), (7, 2), (7, 3), (7, 4), (7, 5), (7, 6)]
               :: (nat \<times> nat) list) \<le> (8 :: nat)"
proof -
  let ?g = "graph_phi [4, 4, 4, 4, 4, 4, 4, 4, 4]"
  let ?uses = "[(8, 2), (7, 0), (7, 1), (7, 2), (7, 3), (7, 4), (7, 5), (7, 6)]
                 :: (nat \<times> nat) list"
  have h: "TryReuseDispatch ?g 9 4 cand_phi [4, 0, 8, 5, 3] 5 = Some (False, ?g, [])"
    by code_simp
  have u: "CollectFrameStateUniqueUses ?g 4 8 [] kMaxUses = Some (False, ?uses)"
    by code_simp
  have l: "length ([] :: (nat \<times> nat) list) \<le> kMaxUses" by simp
  note t = TryReuseDispatch_declines[of ?g 9 4 cand_phi "[4, 0, 8, 5, 3]" 5 ?g "[]" 8 "[]"
             False ?uses]
  from t h have c1: "CreateOrReuseDispatch ?g 9 4 cand_phi [4, 0, 8, 5, 3] 5 =
       Some (CreateDispatch ?g 9 4 (target_functions cand_phi)
               (GetControlInput ?g 9) [4, 0, 8, 5, 3] 5)"
    by blast
  from t u l have c2: "length ?uses \<le> (8 :: nat)" by blast
  from h c1 u c2 show ?thesis by blast
qed

text \<open>
  A graph with three calls of one closure that is marked for forced inlining and has a
  bytecode of length 1000000000: node 1 is the closure, 2 and 3 are state values, 4 is the
  frame state and 5, 6 and 7 are the calls.
\<close>

definition graph_forced :: "nat Graph" where
  "graph_forced =
     [plain (OtherOperator 0) [],
      plain (HeapConstant (JSFunctionObject
               \<lparr>address = 1, shared = (sfi 1000000000)\<lparr>force_inline := True\<rparr>\<rparr>)) [],
      plain StateValues [],
      plain StateValues [],
      plain (FrameState JSFunctionFrame) [2, 3, 0, 0, 0, 0],
      plain (JSCall Unknown) [1, 0, 4, 0, 0],
      plain (JSCall Unknown) [1, 0, 4, 0, 0],
      plain (JSCall Unknown) [1, 0, 4, 0, 0]]"

text \<open>The definitions that a run on this graph unfolds.\<close>

lemmas forced_defs = Reduce_def Let_def graph_forced_def heuristic_def config_def opcode_def
      IsInlineeOpcode_def plain_def InputAt_def CollectFunctions_def sfi_def
      InlineCandidate_def num_functions_def inliner_always_def wrap_int_def kMinInt_def

text \<open>
  The counter decreases: the first two calls are substituted at once, which brings the
  counter to 2000000000, and the substitution of the third adds 1000000000 once more,
  which leaves the range of \<^verbatim>\<open>int\<close> and ends at -1294967296. So the counter is not
  non-decreasing over every sequence of operations, as C3 has it.
\<close>

theorem cumulative_count_overflow_counterexample:
  "run (config inliner_always) [DoReduce 5, DoReduce 6] (heuristic graph_forced) =
     Some ((heuristic graph_forced)\<lparr>seen := {6, 5}, cumulative_count := 2000000000\<rparr>)
   \<and> run (config inliner_always) [DoReduce 7]
         ((heuristic graph_forced)\<lparr>seen := {6, 5}, cumulative_count := 2000000000\<rparr>) =
       Some ((heuristic graph_forced)\<lparr>seen := {7, 6, 5}, cumulative_count := - 1294967296\<rparr>)
   \<and> cumulative_count
         ((heuristic graph_forced)\<lparr>seen := {7, 6, 5}, cumulative_count := - 1294967296\<rparr>)
       < cumulative_count
           ((heuristic graph_forced)\<lparr>seen := {6, 5}, cumulative_count := 2000000000\<rparr>)"
  by (simp add: forced_defs)

text \<open>
  The counter over runs: the call 7 is enqueued, which adds nothing, and then substituted
  by the drain step, which adds its size of 50; the call 6 of a small closure is
  substituted at once; the drain step discards a candidate that is too large and
  substitutes the next; with an inliner that never reports a change the counter stays at
  0; and the candidate over the phi of two closures adds the sizes 10 and 50.
\<close>

theorem cumulative_count_added_witness:
  "run (config inliner_always) [DoReduce 7, DoFinalize] (heuristic graph_calls) =
     Some ((heuristic graph_calls)\<lparr>seen := {7}, cumulative_count := 50\<rparr>)
   \<and> run_added (config inliner_always) [DoReduce 7, DoFinalize] (heuristic graph_calls) = 50
   \<and> run_added (config inliner_always) [DoReduce 7] (heuristic graph_calls) = 0
   \<and> cumulative_count ((heuristic graph_calls)\<lparr>seen := {7}, cumulative_count := 50\<rparr>)
       = wrap_int (cumulative_count (heuristic graph_calls) + int 50)
   \<and> cumulative_count (heuristic graph_calls)
       \<le> cumulative_count ((heuristic graph_calls)\<lparr>seen := {7}, candidates := [cand7]\<rparr>)
   \<and> cumulative_count ((heuristic graph_calls)\<lparr>seen := {7}, candidates := [cand7]\<rparr>)
       \<le> cumulative_count ((heuristic graph_calls)\<lparr>seen := {7}, cumulative_count := 50\<rparr>)
   \<and> Reduce (config inliner_always) 6 (heuristic graph_calls) =
       InlineCandidate (config inliner_always) cand6 True ((heuristic graph_calls)\<lparr>seen := {6}\<rparr>)
   \<and> Reduce (config inliner_always) 7 (heuristic graph_calls) =
       Some (NoChange, (heuristic graph_calls)\<lparr>seen := {7}, candidates := [cand7]\<rparr>)
   \<and> Finalize (config inliner_always) ((heuristic graph_calls)\<lparr>candidates := [candA, candB]\<rparr>)
       = Some ((heuristic graph_calls)\<lparr>cumulative_count := 10\<rparr>)
   \<and> (\<exists>b\<in>set [candA, candB]. \<exists>st0 r0.
         cumulative_count st0 = 0 \<and> Changed r0
         \<and> InlineCandidate (config inliner_always) b False st0 =
             Some (r0, (heuristic graph_calls)\<lparr>cumulative_count := 10\<rparr>))
   \<and> InlineCandidate (config inliner_always) cand7 False (heuristic graph_calls) =
       Some (Replace 7, (heuristic graph_calls)\<lparr>cumulative_count := 50\<rparr>)
   \<and> InlineCandidate (config inliner_never) cand7 False (heuristic graph_calls) =
       Some (NoChange, heuristic graph_calls)
   \<and> (\<exists>val calls g.
         InlineCandidate_expand (config inliner_always) cand_phi (graph_phi [4]) = Some (val, calls, g)
         \<and> InlineCandidate (config inliner_always) cand_phi False (heuristic (graph_phi [4])) =
             Some (Replace val,
                   InlineCandidate_calls (config inliner_always) False cand_phi calls [0..<2]
                     ((heuristic (graph_phi [4]))\<lparr>graph := g\<rparr>)))
   \<and> map_option (\<lambda>(r, st). cumulative_count st)
         (InlineCandidate (config inliner_always) cand_phi False (heuristic (graph_phi [4])))
       = Some 60
   \<and> run (config inliner_never) [DoReduce 7, DoFinalize] (heuristic graph_calls) =
       Some ((heuristic graph_calls)\<lparr>seen := {7}\<rparr>)
   \<and> cumulative_count ((heuristic graph_calls)\<lparr>seen := {7}\<rparr>) = 0"
proof -
  let ?always = "config inliner_always"
  let ?never = "config inliner_never"
  let ?init = "heuristic graph_calls"
  let ?mid = "?init\<lparr>seen := {7}, candidates := [cand7]\<rparr>"
  let ?fin = "?init\<lparr>seen := {7}, cumulative_count := 50\<rparr>"
  let ?bl = "?init\<lparr>candidates := [candA, candB]\<rparr>"
  let ?ten = "?init\<lparr>cumulative_count := 10\<rparr>"
  let ?phi = "heuristic (graph_phi [4])"
  have z: "cumulative_count ?init = 0" by (simp add: heuristic_def)
  have i0: "is_int (cumulative_count ?init)"
    by (simp add: heuristic_def is_int_def kMinInt_def kMaxInt_def)
  have r1: "run ?always [DoReduce 7, DoFinalize] ?init = Some ?fin" by code_simp
  have r2: "run ?always [DoReduce 7] ?init = Some ?mid" by code_simp
  have r3: "run ?always [DoFinalize] ?mid = Some ?fin" by code_simp
  have a1: "run_added ?always [DoReduce 7, DoFinalize] ?init = 50" by code_simp
  have a2: "run_added ?always [DoReduce 7] ?init = 0" by code_simp
  have a3: "run_added ?always ([DoReduce 7] @ [DoFinalize]) ?init = 50" using a1 by simp
  have b1: "cumulative_count ?init + int (run_added ?always ([DoReduce 7] @ [DoFinalize]) ?init)
              \<le> kMaxInt"
    unfolding a3 z by (simp add: kMaxInt_def)
  have s6: "Reduce_substitution ?always 6 ?init = Some (cand6, True)" by code_simp
  have s7: "Reduce_substitution ?always 7 ?init = None" by code_simp
  have q7: "Reduce ?always 7 ?init = Some (NoChange, ?mid)" by code_simp
  have f1: "Finalize ?always ?bl = Some ?ten" by code_simp
  have m1: "num_functions cand7 = 1" by code_simp
  have m2: "InlineCandidate ?always cand7 False ?init = Some (Replace 7, ?init\<lparr>cumulative_count := 50\<rparr>)"
    by code_simp
  have m3: "InlineCandidate ?never cand7 False ?init = Some (NoChange, ?init)" by code_simp
  have n1: "\<forall>g n. \<not> Changed (fst (ReduceJSCall ?never g n))"
    by (simp add: config_def inliner_never_def)
  have n2: "run ?never [DoReduce 7, DoFinalize] ?init = Some (?init\<lparr>seen := {7}\<rparr>)"
    by code_simp
  have p1: "num_functions cand_phi \<noteq> 1" by code_simp
  have nf: "num_functions cand_phi = 2" by code_simp
  have p2: "map_option (\<lambda>(r, st). cumulative_count st)
              (InlineCandidate ?always cand_phi False ?phi) = Some 60"
    by code_simp
  have "InlineCandidate_expand ?always cand_phi (graph_phi [4]) \<noteq> None" by code_simp
  then obtain val calls g where
    e: "InlineCandidate_expand ?always cand_phi (graph_phi [4]) = Some (val, calls, g)"
    by (cases "InlineCandidate_expand ?always cand_phi (graph_phi [4])") auto
  have gp: "graph ?phi = graph_phi [4]" by (simp add: heuristic_def)
  note t1 = cumulative_count_added[where cfg = ?always and ops = "[DoReduce 7, DoFinalize]"
              and st = ?init and st' = ?fin and ?ops1.0 = "[DoReduce 7]" and ?ops2.0 = "[DoFinalize]"
              and ?st1.0 = ?mid and ?st2.0 = ?fin and nd = 6 and c = cand6 and fi = True]
  note t2 = cumulative_count_added[where cfg = ?always and st = ?init and st' = ?mid
              and nd = 7 and r = NoChange]
  note t3 = cumulative_count_added[where cfg = ?always and st = ?bl and st' = ?ten]
  note t4 = cumulative_count_added[where cfg = ?always and st = ?init and c = cand7
              and fi = False]
  note t5 = cumulative_count_added[where cfg = ?always and st = ?phi and c = cand_phi
              and fi = False]
  note t6 = cumulative_count_added[where cfg = ?never and ops = "[DoReduce 7, DoFinalize]"
              and st = ?init and st' = "?init\<lparr>seen := {7}\<rparr>"]
  from t1 i0 r1 have c1: "cumulative_count ?fin =
      wrap_int (cumulative_count ?init + int (run_added ?always [DoReduce 7, DoFinalize] ?init))"
    by blast
  from t1 i0 b1 r2 r3 have c2: "cumulative_count ?init \<le> cumulative_count ?mid
      \<and> cumulative_count ?mid \<le> cumulative_count ?fin"
    by blast
  from t1 s6 have c3: "Reduce ?always 6 ?init
      = InlineCandidate ?always cand6 True (?init\<lparr>seen := insert 6 (seen ?init)\<rparr>)"
    by blast
  have sn: "seen ?init = {}" by (simp add: heuristic_def)
  from t2 s7 q7 have c4: "cumulative_count ?mid = cumulative_count ?init" by blast
  from t3 f1 have "cumulative_count ?ten = cumulative_count ?bl
      \<or> (\<exists>b\<in>set (candidates ?bl). \<exists>st0 r0.
            cumulative_count st0 = cumulative_count ?bl \<and> Changed r0
            \<and> InlineCandidate ?always b False st0 = Some (r0, ?ten))"
    by blast
  moreover have "cumulative_count ?ten \<noteq> cumulative_count ?bl" by (simp add: heuristic_def)
  moreover have "cumulative_count ?bl = 0" "candidates ?bl = [candA, candB]"
    by (simp_all add: heuristic_def)
  ultimately have c5: "\<exists>b\<in>set [candA, candB]. \<exists>st0 r0.
         cumulative_count st0 = 0 \<and> Changed r0
         \<and> InlineCandidate ?always b False st0 = Some (r0, ?ten)"
    by simp
  from t4 m1 have c6: "InlineCandidate ?always cand7 False ?init =
            Some (fst (ReduceJSCall ?always (graph ?init) (node cand7)),
                  if Changed (fst (ReduceJSCall ?always (graph ?init) (node cand7)))
                  then ?init\<lparr>graph := snd (ReduceJSCall ?always (graph ?init) (node cand7)),
                          cumulative_count :=
                            wrap_int (cumulative_count ?init
                              + int (bytecode_array_length
                                       (target_shared (target_functions cand7 ! 0))))\<rparr>
                  else ?init\<lparr>graph := snd (ReduceJSCall ?always (graph ?init) (node cand7))\<rparr>)"
    by blast
  from t5 p1 have "InlineCandidate ?always cand_phi False ?phi =
            (case InlineCandidate_expand ?always cand_phi (graph ?phi) of
               None \<Rightarrow> None
             | Some (val, calls, g) \<Rightarrow>
                 Some (Replace val,
                       InlineCandidate_calls ?always False cand_phi calls [0..<num_functions cand_phi]
                         (?phi\<lparr>graph := g\<rparr>)))"
    by blast
  with e gp nf have c7: "InlineCandidate ?always cand_phi False ?phi =
      Some (Replace val, InlineCandidate_calls ?always False cand_phi calls [0..<2]
                           (?phi\<lparr>graph := g\<rparr>))"
    by simp
  from t6 n1 n2 have c8: "cumulative_count (?init\<lparr>seen := {7}\<rparr>) = cumulative_count ?init"
    by blast
  from c7 e have c9: "\<exists>val calls g.
         InlineCandidate_expand ?always cand_phi (graph_phi [4]) = Some (val, calls, g)
         \<and> InlineCandidate ?always cand_phi False ?phi =
             Some (Replace val,
                   InlineCandidate_calls ?always False cand_phi calls [0..<2]
                     (?phi\<lparr>graph := g\<rparr>))"
    by blast
  from c1 have g4: "cumulative_count ?fin = wrap_int (cumulative_count ?init + int 50)"
    unfolding a1 .
  from c2 have g5: "cumulative_count ?init \<le> cumulative_count ?mid"
    and g6: "cumulative_count ?mid \<le> cumulative_count ?fin"
    by blast+
  from c3 have g7: "Reduce ?always 6 ?init
      = InlineCandidate ?always cand6 True (?init\<lparr>seen := {6}\<rparr>)"
    unfolding sn .
  from c8 have g16: "cumulative_count (?init\<lparr>seen := {7}\<rparr>) = 0" unfolding z .
  show ?thesis
    by (intro conjI r1 a1 a2 g4 g5 g6 g7 q7 f1 c5 m2 m3 c9 p2 n2 g16)
qed

text \<open>
  The specialized calls: on the graph with the phi over two closures the dispatch is
  reused and the specialized calls are the nodes 11 and 12, live after the expansion.
  With the counter at 995 and the cap at 1000, the call 11 is substituted, which kills it
  and brings the counter to 1005, and the call 12, though inlinable, is not handed to the
  inliner and stays a live call of the graph. With nine uses of the phi in the frame state
  the dispatch is rebuilt, the specialized calls are the nodes 14 and 15, and the same
  happens to them. With inlining forced and an inliner that reports no change, both calls
  are handed over and both stay live.
\<close>

theorem InlineCandidate_specialized_calls_witness:
  "call_site_wf (graph_phi [4]) 9 2
   \<and> (\<exists>v cs gx.
        InlineCandidate (config inliner_always) cand_phi False
            ((heuristic (graph_phi [4]))\<lparr>cumulative_count := 995\<rparr>) =
          Some (Replace v,
                InlineCandidate_calls (config inliner_always) False cand_phi cs [0..<2]
                  ((heuristic (graph_phi [4]))\<lparr>cumulative_count := 995, graph := gx\<rparr>))
        \<and> length cs = 2 \<and> distinct cs)
   \<and> (\<exists>val g.
      InlineCandidate_expand (config inliner_always) cand_phi (graph_phi [4]) = Some (val, [11, 12], g)
      \<and> InlineCandidate (config inliner_always) cand_phi False
            ((heuristic (graph_phi [4]))\<lparr>cumulative_count := 995\<rparr>) =
          Some (Replace val,
                InlineCandidate_calls (config inliner_always) False cand_phi [11, 12] [0..<2]
                  ((heuristic (graph_phi [4]))\<lparr>cumulative_count := 995, graph := g\<rparr>))
      \<and> \<not> IsDead g 11 \<and> \<not> IsDead g 12
      \<and> IsDead (graph (InlineCandidate_calls (config inliner_always) False cand_phi [11, 12] [0..<2]
                  ((heuristic (graph_phi [4]))\<lparr>cumulative_count := 995, graph := g\<rparr>))) 11
      \<and> \<not> IsDead (graph (InlineCandidate_calls (config inliner_always) False cand_phi [11, 12] [0..<2]
                  ((heuristic (graph_phi [4]))\<lparr>cumulative_count := 995, graph := g\<rparr>))) 12)
   \<and> map_option (\<lambda>(r, st). (r, cumulative_count st, IsDead (graph st) 11, IsDead (graph st) 12))
        (InlineCandidate (config inliner_always) cand_phi False
           ((heuristic (graph_phi [4]))\<lparr>cumulative_count := 995\<rparr>))
      = Some (Replace 16, 1005, True, False)
   \<and> map_option (\<lambda>(r, st). (r, cumulative_count st, IsDead (graph st) 14, IsDead (graph st) 15))
        (InlineCandidate (config inliner_always) cand_phi False
           ((heuristic (graph_phi [4, 4, 4, 4, 4, 4, 4, 4, 4]))\<lparr>cumulative_count := 995\<rparr>))
      = Some (Replace 18, 1005, True, False)
   \<and> map_option (\<lambda>(r, st). (r, cumulative_count st, IsDead (graph st) 11, IsDead (graph st) 12))
        (InlineCandidate (config inliner_never) cand_phi True (heuristic (graph_phi [4])))
      = Some (Replace 16, 0, False, False)"
proof -
  let ?always = "config inliner_always"
  let ?g0 = "graph_phi [4]"
  let ?st = "(heuristic ?g0)\<lparr>cumulative_count := 995\<rparr>"
  have rw: "ReplaceWithValue_keeps_liveness ?always"
    by (simp add: ReplaceWithValue_keeps_liveness_def config_def keeps_liveness_refl)
  have rj: "ReduceJSCall_keeps_liveness ?always"
    by (simp add: ReduceJSCall_keeps_liveness_def config_def inliner_always_def
                  keeps_liveness_refl)
  have n: "num_functions cand_phi \<noteq> 1" by code_simp
  have nf: "num_functions cand_phi = 2" by code_simp
  have gs: "graph ?st = ?g0" by (simp add: heuristic_def)
  have m: "GetControlInput (graph ?st) (GetValueInput (graph ?st) (node cand_phi) 0)
             < length (graph ?st)"
    unfolding gs by code_simp
  have wf0: "call_site_wf (graph_phi [4]) 9 2"
    unfolding call_site_wf_def closed_graph_upt metadata_ordered_upt by code_simp
  have nc: "node cand_phi = 9" by (simp add: cand_phi_def)
  have wf: "call_site_wf (graph ?st) (node cand_phi) (num_functions cand_phi)"
    unfolding gs nc nf by (rule wf0)
  have "map_option (\<lambda>(val, calls, g). calls) (InlineCandidate_expand ?always cand_phi ?g0)
          = Some [11, 12]"
    by code_simp
  then obtain val g where e0: "InlineCandidate_expand ?always cand_phi ?g0 = Some (val, [11, 12], g)"
    by (cases "InlineCandidate_expand ?always cand_phi ?g0") auto
  then have e: "InlineCandidate_expand ?always cand_phi (graph ?st) = Some (val, [11, 12], g)"
    unfolding gs .
  let ?loop = "\<lambda>is. InlineCandidate_calls ?always False cand_phi [11, 12] is
                       ((heuristic ?g0)\<lparr>cumulative_count := 995, graph := g\<rparr>)"
  have i0: "(0::nat) < num_functions cand_phi" and i1: "(1::nat) < num_functions cand_phi"
    unfolding nf by simp_all
  note t0 = InlineCandidate_specialized_calls[where cfg = ?always and c = cand_phi and st = ?st
              and val = val and calls = "[11, 12]" and g = g and i = 0 and fi = False]
  note t1 = InlineCandidate_specialized_calls[where cfg = ?always and c = cand_phi and st = ?st
              and val = val and calls = "[11, 12]" and g = g and i = 1 and fi = False]
  from t0 rw rj n m e i0 have c0:
    "InlineCandidate ?always cand_phi False ?st =
       Some (Replace val,
             InlineCandidate_calls ?always False cand_phi [11, 12] [0..<num_functions cand_phi]
               (?st\<lparr>graph := g\<rparr>))
     \<and> \<not> IsDead g ([11, 12] ! 0)
     \<and> IsDead (graph (InlineCandidate_calls ?always False cand_phi [11, 12]
                         [0..<num_functions cand_phi] (?st\<lparr>graph := g\<rparr>))) ([11, 12] ! 0) =
          ((False \<or> (can_inline_function cand_phi ! 0
                   \<and> cumulative_count
                         (InlineCandidate_calls ?always False cand_phi [11, 12] [0..<0]
                            (?st\<lparr>graph := g\<rparr>))
                       < FLAG_max_inlined_bytecode_size_cumulative ?always))
           \<and> Changed (fst (ReduceJSCall ?always
                  (graph (InlineCandidate_calls ?always False cand_phi [11, 12] [0..<0]
                            (?st\<lparr>graph := g\<rparr>)))
                  ([11, 12] ! 0))))"
    by blast
  from t1 rw rj n m e i1 have c1:
    "\<not> IsDead g ([11, 12] ! 1)
     \<and> IsDead (graph (InlineCandidate_calls ?always False cand_phi [11, 12]
                         [0..<num_functions cand_phi] (?st\<lparr>graph := g\<rparr>))) ([11, 12] ! 1) =
          ((False \<or> (can_inline_function cand_phi ! 1
                   \<and> cumulative_count
                         (InlineCandidate_calls ?always False cand_phi [11, 12] [0..<1]
                            (?st\<lparr>graph := g\<rparr>))
                       < FLAG_max_inlined_bytecode_size_cumulative ?always))
           \<and> Changed (fst (ReduceJSCall ?always
                  (graph (InlineCandidate_calls ?always False cand_phi [11, 12] [0..<1]
                            (?st\<lparr>graph := g\<rparr>)))
                  ([11, 12] ! 1))))"
    by blast
  have ch: "Changed (fst (ReduceJSCall ?always gx k))" for gx k
    by (simp add: config_def inliner_always_def)
  have cap: "FLAG_max_inlined_bytecode_size_cumulative ?always = 1000" by (simp add: config_def)
  have can: "can_inline_function cand_phi ! 0" "can_inline_function cand_phi ! 1"
    by (simp_all add: cand_phi_def)
  have sz: "bytecode_array_length (target_shared (target_functions cand_phi ! 0)) = 10"
    by code_simp
  have w: "wrap_int 1005 = 1005" by (simp add: wrap_int_def kMinInt_def)
  have cnt0: "cumulative_count (?loop [0..<0]) = 995" by simp
  have cnt1: "cumulative_count (?loop [0..<1]) = 1005"
    by (simp add: InlineCandidate_call_delta cap can ch sz w)
  from t0 rw rj n wf have "\<exists>v cs gx.
        InlineCandidate ?always cand_phi False ?st =
          Some (Replace v,
                InlineCandidate_calls ?always False cand_phi cs [0..<num_functions cand_phi]
                  (?st\<lparr>graph := gx\<rparr>))
        \<and> length cs = num_functions cand_phi \<and> distinct cs"
    by blast
  then have g0: "\<exists>v cs gx.
        InlineCandidate ?always cand_phi False ?st =
          Some (Replace v,
                InlineCandidate_calls ?always False cand_phi cs [0..<2] (?st\<lparr>graph := gx\<rparr>))
        \<and> length cs = 2 \<and> distinct cs"
    unfolding nf .
  from c0 have d0: "InlineCandidate ?always cand_phi False ?st = Some (Replace val, ?loop [0..<2])"
    unfolding nf by blast
  from c0 have l0: "\<not> IsDead g 11" by simp
  from c1 have l1: "\<not> IsDead g 12" by simp
  from c0 have k0: "IsDead (graph (?loop [0..<2])) 11"
    unfolding nf using cnt0 cap can ch by simp
  from c1 have k1: "\<not> IsDead (graph (?loop [0..<2])) 12"
    unfolding nf using cnt1 cap by simp
  from e0 d0 l0 l1 k0 k1 have g1: "\<exists>val g.
      InlineCandidate_expand ?always cand_phi ?g0 = Some (val, [11, 12], g)
      \<and> InlineCandidate ?always cand_phi False ?st =
          Some (Replace val,
                InlineCandidate_calls ?always False cand_phi [11, 12] [0..<2]
                  ((heuristic ?g0)\<lparr>cumulative_count := 995, graph := g\<rparr>))
      \<and> \<not> IsDead g 11 \<and> \<not> IsDead g 12
      \<and> IsDead (graph (InlineCandidate_calls ?always False cand_phi [11, 12] [0..<2]
                  ((heuristic ?g0)\<lparr>cumulative_count := 995, graph := g\<rparr>))) 11
      \<and> \<not> IsDead (graph (InlineCandidate_calls ?always False cand_phi [11, 12] [0..<2]
                  ((heuristic ?g0)\<lparr>cumulative_count := 995, graph := g\<rparr>))) 12"
    by blast
  have g2: "map_option (\<lambda>(r, st). (r, cumulative_count st, IsDead (graph st) 11, IsDead (graph st) 12))
        (InlineCandidate ?always cand_phi False ?st) = Some (Replace 16, 1005, True, False)"
    by code_simp
  have g3: "map_option (\<lambda>(r, st). (r, cumulative_count st, IsDead (graph st) 14, IsDead (graph st) 15))
        (InlineCandidate ?always cand_phi False
           ((heuristic (graph_phi [4, 4, 4, 4, 4, 4, 4, 4, 4]))\<lparr>cumulative_count := 995\<rparr>))
      = Some (Replace 18, 1005, True, False)"
    by code_simp
  have g4: "map_option (\<lambda>(r, st). (r, cumulative_count st, IsDead (graph st) 11, IsDead (graph st) 12))
        (InlineCandidate (config inliner_never) cand_phi True (heuristic ?g0))
      = Some (Replace 16, 0, False, False)"
    by code_simp
  show ?thesis by (intro conjI wf0 g0 g1 g2 g3 g4)
qed

text \<open>
  The graph with the phi over two closures, with the inputs of the phi exchanged: the
  first target is the closure of size 50 and the last the closure of size 10.
\<close>

definition graph_phi_swapped :: "nat Graph" where
  "graph_phi_swapped = (graph_phi [4])[4 := plain (Phi 2) [2, 1, 3]]"

definition cand_swapped :: "nat Candidate" where
  "cand_swapped = \<lparr>node = 9, target_functions = [Function (fn 2 50), Function (fn 1 10)],
                   can_inline_function = [True, True], frequency = Unknown, total_size = 60\<rparr>"

definition cand8 :: "nat Candidate" where
  "cand8 = \<lparr>node = 8, target_functions = [Function (fn 2 50)], can_inline_function = [True],
            frequency = Known 0, total_size = 50\<rparr>"

text \<open>
  The decision in general mode at the cap: with the counter equal to the absolute cap of
  5000, the call 6 of a small closure is substituted at once and is not enqueued. The
  counter is not below the cap there, so Reduce does not do what C6 says for that case,
  which is to insert the candidate into the backlog and report no change.
\<close>

theorem Reduce_general_at_cap_counterexample:
  "\<not> cumulative_count ((heuristic graph_calls)\<lparr>cumulative_count := 5000\<rparr>)
       < FLAG_max_inlined_bytecode_size_absolute (config inliner_always)
   \<and> Reduce (config inliner_always) 6 ((heuristic graph_calls)\<lparr>cumulative_count := 5000\<rparr>)
       = Some (Replace 6, (heuristic graph_calls)\<lparr>seen := {6}, cumulative_count := 5010\<rparr>)
   \<and> Reduce (config inliner_always) 6 ((heuristic graph_calls)\<lparr>cumulative_count := 5000\<rparr>)
       \<noteq> Some (NoChange,
                (heuristic graph_calls)\<lparr>seen := {6}, cumulative_count := 5000,
                                          candidates := candidates_insert cand6 []\<rparr>)"
  by code_simp

text \<open>
  The decision in general mode. The call 9 over the phi of a closure of size 50 and one of
  size 10 is inserted into the empty backlog, since its first target is not small; when
  the bound for small functions is 100, both targets are small and the call is substituted
  at once with inlining forced. The call 8, whose frequency 0 is below the minimum of 1,
  is discarded. The call 6 of a small closure is substituted at once with the counter at
  the absolute cap of 5000, and inserted into the backlog with the counter at 5001.
\<close>

theorem Reduce_general_witness:
  "Reduce (config inliner_always) 9 (heuristic graph_phi_swapped) =
     Some (NoChange, (heuristic graph_phi_swapped)\<lparr>seen := {9}, candidates := [cand_swapped]\<rparr>)
   \<and> Reduce ((config inliner_always)\<lparr>FLAG_max_inlined_bytecode_size_small := 100\<rparr>) 9
        (heuristic graph_phi_swapped) =
       InlineCandidate ((config inliner_always)\<lparr>FLAG_max_inlined_bytecode_size_small := 100\<rparr>)
         cand_swapped True ((heuristic graph_phi_swapped)\<lparr>seen := {9}\<rparr>)
   \<and> Reduce (config inliner_always) 8 (heuristic graph_calls) =
       Some (NoChange, (heuristic graph_calls)\<lparr>seen := {8}\<rparr>)
   \<and> Reduce (config inliner_always) 6 ((heuristic graph_calls)\<lparr>cumulative_count := 5000\<rparr>) =
       InlineCandidate (config inliner_always) cand6 True
         ((heuristic graph_calls)\<lparr>cumulative_count := 5000, seen := {6}\<rparr>)
   \<and> Reduce (config inliner_always) 6 ((heuristic graph_calls)\<lparr>cumulative_count := 5001\<rparr>) =
       Some (NoChange,
             (heuristic graph_calls)\<lparr>cumulative_count := 5001, seen := {6},
                                       candidates := [cand6]\<rparr>)"
proof -
  let ?cfg = "config inliner_always"
  let ?cfg100 = "?cfg\<lparr>FLAG_max_inlined_bytecode_size_small := 100\<rparr>"
  let ?sw = "heuristic graph_phi_swapped"
  let ?init = "heuristic graph_calls"
  let ?cap = "?init\<lparr>cumulative_count := 5000\<rparr>"
  let ?over = "?init\<lparr>cumulative_count := 5001\<rparr>"
  let ?fsw = "[Function (fn 2 50), Function (fn 1 10)]"
  let ?f6 = "[Function (fn 1 10)]"
  let ?f8 = "[Function (fn 2 50)]"
  have pre: "IsInlineeOpcode (opcode (graph s) nd) \<and> nd \<notin> seen s
      \<and> CollectFunctions (graph s) (InputAt (graph s) nd 0) (kMaxCallPolymorphism c) = fs
      \<and> fs \<noteq> [] \<and> (length fs > 1 \<longrightarrow> FLAG_polymorphic_inlining c)
      \<and> (\<exists>f\<in>set fs. CanInlineFunction c (target_shared f))
      \<and> (\<exists>f\<in>set fs. \<not> force_inline (target_shared f))
      \<and> Reduce_levels c (graph s) (GetFrameStateInput (graph s) nd) 0 = Some True
      \<and> mode s = kGeneralInlining
      \<and> cd = \<lparr>node = nd, target_functions = fs,
                can_inline_function = map (\<lambda>f. CanInlineFunction c (target_shared f)) fs,
                frequency = frequency_of (operator (graph s ! nd)),
                total_size = inlinable_size c fs\<rparr>
     \<Longrightarrow> Reduce c nd s =
           (if (\<exists>v. frequency cd = Known v \<and> v < FLAG_min_inlining_frequency c)
            then Some (NoChange, s\<lparr>seen := insert nd (seen s)\<rparr>)
            else if (\<forall>f\<in>set fs. IsSmallInlineFunction c (target_shared f))
                    \<and> cumulative_count s \<le> FLAG_max_inlined_bytecode_size_absolute c
              then InlineCandidate c cd True (s\<lparr>seen := insert nd (seen s)\<rparr>)
            else Some (NoChange,
                       s\<lparr>seen := insert nd (seen s),
                         candidates := candidates_insert cd (candidates s)\<rparr>))"
    for s :: "nat Heuristic" and nd c fs cd
    using Reduce_general[of s nd c fs cd "s\<lparr>seen := insert nd (seen s)\<rparr>"] by blast
  have h1: "IsInlineeOpcode (opcode (graph ?sw) 9) \<and> 9 \<notin> seen ?sw
      \<and> CollectFunctions (graph ?sw) (InputAt (graph ?sw) 9 0) (kMaxCallPolymorphism ?cfg) = ?fsw
      \<and> ?fsw \<noteq> [] \<and> (length ?fsw > 1 \<longrightarrow> FLAG_polymorphic_inlining ?cfg)
      \<and> (\<exists>f\<in>set ?fsw. CanInlineFunction ?cfg (target_shared f))
      \<and> (\<exists>f\<in>set ?fsw. \<not> force_inline (target_shared f))
      \<and> Reduce_levels ?cfg (graph ?sw) (GetFrameStateInput (graph ?sw) 9) 0 = Some True
      \<and> mode ?sw = kGeneralInlining
      \<and> cand_swapped = \<lparr>node = 9, target_functions = ?fsw,
                can_inline_function = map (\<lambda>f. CanInlineFunction ?cfg (target_shared f)) ?fsw,
                frequency = frequency_of (operator (graph ?sw ! 9)),
                total_size = inlinable_size ?cfg ?fsw\<rparr>"
    by code_simp
  have h2: "IsInlineeOpcode (opcode (graph ?sw) 9) \<and> 9 \<notin> seen ?sw
      \<and> CollectFunctions (graph ?sw) (InputAt (graph ?sw) 9 0) (kMaxCallPolymorphism ?cfg100) = ?fsw
      \<and> ?fsw \<noteq> [] \<and> (length ?fsw > 1 \<longrightarrow> FLAG_polymorphic_inlining ?cfg100)
      \<and> (\<exists>f\<in>set ?fsw. CanInlineFunction ?cfg100 (target_shared f))
      \<and> (\<exists>f\<in>set ?fsw. \<not> force_inline (target_shared f))
      \<and> Reduce_levels ?cfg100 (graph ?sw) (GetFrameStateInput (graph ?sw) 9) 0 = Some True
      \<and> mode ?sw = kGeneralInlining
      \<and> cand_swapped = \<lparr>node = 9, target_functions = ?fsw,
                can_inline_function = map (\<lambda>f. CanInlineFunction ?cfg100 (target_shared f)) ?fsw,
                frequency = frequency_of (operator (graph ?sw ! 9)),
                total_size = inlinable_size ?cfg100 ?fsw\<rparr>"
    by code_simp
  have h3: "IsInlineeOpcode (opcode (graph ?init) 8) \<and> 8 \<notin> seen ?init
      \<and> CollectFunctions (graph ?init) (InputAt (graph ?init) 8 0) (kMaxCallPolymorphism ?cfg) = ?f8
      \<and> ?f8 \<noteq> [] \<and> (length ?f8 > 1 \<longrightarrow> FLAG_polymorphic_inlining ?cfg)
      \<and> (\<exists>f\<in>set ?f8. CanInlineFunction ?cfg (target_shared f))
      \<and> (\<exists>f\<in>set ?f8. \<not> force_inline (target_shared f))
      \<and> Reduce_levels ?cfg (graph ?init) (GetFrameStateInput (graph ?init) 8) 0 = Some True
      \<and> mode ?init = kGeneralInlining
      \<and> cand8 = \<lparr>node = 8, target_functions = ?f8,
                can_inline_function = map (\<lambda>f. CanInlineFunction ?cfg (target_shared f)) ?f8,
                frequency = frequency_of (operator (graph ?init ! 8)),
                total_size = inlinable_size ?cfg ?f8\<rparr>"
    by code_simp
  have h4: "IsInlineeOpcode (opcode (graph ?cap) 6) \<and> 6 \<notin> seen ?cap
      \<and> CollectFunctions (graph ?cap) (InputAt (graph ?cap) 6 0) (kMaxCallPolymorphism ?cfg) = ?f6
      \<and> ?f6 \<noteq> [] \<and> (length ?f6 > 1 \<longrightarrow> FLAG_polymorphic_inlining ?cfg)
      \<and> (\<exists>f\<in>set ?f6. CanInlineFunction ?cfg (target_shared f))
      \<and> (\<exists>f\<in>set ?f6. \<not> force_inline (target_shared f))
      \<and> Reduce_levels ?cfg (graph ?cap) (GetFrameStateInput (graph ?cap) 6) 0 = Some True
      \<and> mode ?cap = kGeneralInlining
      \<and> cand6 = \<lparr>node = 6, target_functions = ?f6,
                can_inline_function = map (\<lambda>f. CanInlineFunction ?cfg (target_shared f)) ?f6,
                frequency = frequency_of (operator (graph ?cap ! 6)),
                total_size = inlinable_size ?cfg ?f6\<rparr>"
    by code_simp
  have h5: "IsInlineeOpcode (opcode (graph ?over) 6) \<and> 6 \<notin> seen ?over
      \<and> CollectFunctions (graph ?over) (InputAt (graph ?over) 6 0) (kMaxCallPolymorphism ?cfg) = ?f6
      \<and> ?f6 \<noteq> [] \<and> (length ?f6 > 1 \<longrightarrow> FLAG_polymorphic_inlining ?cfg)
      \<and> (\<exists>f\<in>set ?f6. CanInlineFunction ?cfg (target_shared f))
      \<and> (\<exists>f\<in>set ?f6. \<not> force_inline (target_shared f))
      \<and> Reduce_levels ?cfg (graph ?over) (GetFrameStateInput (graph ?over) 6) 0 = Some True
      \<and> mode ?over = kGeneralInlining
      \<and> cand6 = \<lparr>node = 6, target_functions = ?f6,
                can_inline_function = map (\<lambda>f. CanInlineFunction ?cfg (target_shared f)) ?f6,
                frequency = frequency_of (operator (graph ?over ! 6)),
                total_size = inlinable_size ?cfg ?f6\<rparr>"
    by code_simp
  have e1: "\<not> (\<exists>v. frequency cand_swapped = Known v \<and> v < FLAG_min_inlining_frequency ?cfg)"
    "\<not> (\<exists>v. frequency cand_swapped = Known v \<and> v < FLAG_min_inlining_frequency ?cfg100)"
    by (simp_all add: cand_swapped_def)
  have e2: "\<not> (\<forall>f\<in>set ?fsw. IsSmallInlineFunction ?cfg (target_shared f))" by code_simp
  have e3: "(\<forall>f\<in>set ?fsw. IsSmallInlineFunction ?cfg100 (target_shared f)) = True"
    "(cumulative_count ?sw \<le> FLAG_max_inlined_bytecode_size_absolute ?cfg100) = True"
    by code_simp+
  have e4: "\<exists>v. frequency cand8 = Known v \<and> v < FLAG_min_inlining_frequency ?cfg"
    by (simp add: cand8_def config_def)
  have e5: "\<not> (\<exists>v. frequency cand6 = Known v \<and> v < FLAG_min_inlining_frequency ?cfg)"
    by (simp add: cand6_def config_def)
  have e6: "(\<forall>f\<in>set ?f6. IsSmallInlineFunction ?cfg (target_shared f)) = True"
    "(cumulative_count ?cap \<le> FLAG_max_inlined_bytecode_size_absolute ?cfg) = True"
    by code_simp+
  have e7: "\<not> cumulative_count ?over \<le> FLAG_max_inlined_bytecode_size_absolute ?cfg"
    by code_simp
  have s: "seen ?sw = {}" "candidates ?sw = []" "seen ?init = {}" "seen ?cap = {}"
    "seen ?over = {}" "candidates ?over = []"
    by (simp_all add: heuristic_def)
  have g1: "Reduce ?cfg 9 ?sw = Some (NoChange, ?sw\<lparr>seen := {9}, candidates := [cand_swapped]\<rparr>)"
    using pre[OF h1] by (simp only: e1 e2 s if_False if_True simp_thms candidates_insert.simps)
  have g2: "Reduce ?cfg100 9 ?sw = InlineCandidate ?cfg100 cand_swapped True (?sw\<lparr>seen := {9}\<rparr>)"
    using pre[OF h2] by (simp only: e1 e3 s if_False if_True simp_thms candidates_insert.simps)
  have g3: "Reduce ?cfg 8 ?init = Some (NoChange, ?init\<lparr>seen := {8}\<rparr>)"
    using pre[OF h3] by (simp only: e4 s if_False if_True simp_thms candidates_insert.simps)
  have g4: "Reduce ?cfg 6 ?cap = InlineCandidate ?cfg cand6 True (?cap\<lparr>seen := {6}\<rparr>)"
    using pre[OF h4] by (simp only: e5 e6 s if_False if_True simp_thms candidates_insert.simps)
  have g5: "Reduce ?cfg 6 ?over = Some (NoChange, ?over\<lparr>seen := {6}, candidates := [cand6]\<rparr>)"
    using pre[OF h5] by (simp only: e5 e7 s if_False if_True simp_thms candidates_insert.simps)
  show ?thesis by (intro conjI g1 g2 g3 g4 g5)
qed

text \<open>
  Renaming the phi 4 to the closure 1 in the frame state 8, which the call 9 alone uses:
  in the cloning mode the result is the new node 10, the clone with the renamed stack
  input, and the given graph is unchanged; in the other mode the stack input of node 8 is
  replaced in place. The state values 7, whose input is the phi, come back as they are.
\<close>

theorem Duplicate_keeps_shared_nodes_witness:
  "DuplicateFrameStateAndRename (graph_phi [4]) 8 4 1 kCloneState =
     Some (10, graph_phi [4] @ [plain (FrameState JSFunctionFrame) [6, 7, 1, 0, 0, 0]])
   \<and> take (length (graph_phi [4]))
         (graph_phi [4] @ [plain (FrameState JSFunctionFrame) [6, 7, 1, 0, 0, 0]]) = graph_phi [4]
   \<and> DuplicateFrameStateAndRename (graph_phi [4]) 8 4 1 kChangeInPlace =
       Some (8, ReplaceInput (graph_phi [4]) 8 2 1)
   \<and> ReplaceInput (graph_phi [4]) 8 2 1 ! 8 \<noteq> graph_phi [4] ! 8
   \<and> UseCount (graph_phi [4]) 8 = 1
   \<and> UseCount (graph_phi [4]) 4 = 3
   \<and> ReplaceInput (graph_phi [4]) 8 2 1 ! 4 = graph_phi [4] ! 4
   \<and> DuplicateStateValuesAndRename (graph_phi [4]) 7 4 1 kChangeInPlace =
       Some (7, graph_phi [4])"
proof -
  let ?g = "graph_phi [4]"
  let ?clone = "?g @ [plain (FrameState JSFunctionFrame) [6, 7, 1, 0, 0, 0]]"
  let ?inplace = "ReplaceInput ?g 8 2 1"
  have c: "DuplicateFrameStateAndRename ?g 8 4 1 kCloneState = Some (10, ?clone)"
    by code_simp
  have p: "DuplicateFrameStateAndRename ?g 8 4 1 kChangeInPlace = Some (8, ?inplace)"
    by code_simp
  have s: "DuplicateStateValuesAndRename ?g 7 4 1 kChangeInPlace = Some (7, ?g)"
    by code_simp
  have ne: "?inplace ! 8 \<noteq> ?g ! 8" by code_simp
  have len: "8 < length ?g" "4 < length ?g" by code_simp+
  have u4: "UseCount ?g 4 = 3" by code_simp
  have used: "\<exists>m<length ?g. 8 \<in> set (inputs (?g ! m))"
  proof (intro exI conjI)
    show "9 < length ?g" by code_simp
    show "8 \<in> set (inputs (?g ! 9))" by code_simp
  qed
  note tc = Duplicate_keeps_shared_nodes[of ?g 8 4 1 kCloneState 10 ?clone 7 7 ?g]
  note tp = Duplicate_keeps_shared_nodes[of ?g 8 4 1 kChangeInPlace 8 ?inplace 7 7 ?g]
  from tc c have r1: "take (length ?g) ?clone = ?g" by blast
  from tp p have "\<forall>n<length ?g. ?inplace ! n \<noteq> ?g ! n \<longrightarrow>
                n = 8 \<and> kChangeInPlace = kChangeInPlace \<and> UseCount ?g n \<le> 1
                \<and> ((\<exists>m<length ?g. n \<in> set (inputs (?g ! m))) \<longrightarrow> UseCount ?g n = 1)"
    by blast
  with len(1) ne used have r2: "UseCount ?g 8 = 1" by blast
  from tp p have "\<forall>n<length ?g. UseCount ?g n > 1 \<longrightarrow> ?inplace ! n = ?g ! n" by blast
  with len(2) u4 have r3: "?inplace ! 4 = ?g ! 4" by simp
  from c r1 p ne r2 u4 r3 s show ?thesis by blast
qed

text \<open>
  The rebuilt dispatch for the call 9 over the phi of two closures: the constants 1 and
  2 are found in the graph, the nodes 10 to 13 are the comparison with the first closure,
  the branch and its projections, node 14 is the call of the first closure under the true
  projection, and node 15 the call of the second under the false projection.
\<close>

theorem CreateDispatch_shape_witness:
  "CreateDispatch (graph_phi [4]) 9 4 [Function (fn 1 10), Function (fn 2 50)]
     (GetControlInput (graph_phi [4]) 9)
     (map (InputAt (graph_phi [4]) 9) [0..<InputCount (graph_phi [4]) 9])
     (InputCount (graph_phi [4]) 9)
   = (graph_phi [4] @
        [plain ReferenceEqual [4, 1], plain Branch [10, 3], plain IfFalse [11],
         plain IfTrue [11], plain (JSCall Unknown) [1, 0, 8, 5, 13],
         plain (JSCall Unknown) [2, 0, 8, 5, 12]],
      [14, 15])
   \<and> dispatch_shape
        (graph_phi [4] @
          [plain ReferenceEqual [4, 1], plain Branch [10, 3], plain IfFalse [11],
           plain IfTrue [11], plain (JSCall Unknown) [1, 0, 8, 5, 13],
           plain (JSCall Unknown) [2, 0, 8, 5, 12]])
        (JSCall Unknown) 4 [4, 0, 8, 5, 3] 5 3
        [Function (fn 1 10), Function (fn 2 50)] [14, 15]
   \<and> count_operator ReferenceEqual
        (graph_phi [4] @
          [plain ReferenceEqual [4, 1], plain Branch [10, 3], plain IfFalse [11],
           plain IfTrue [11], plain (JSCall Unknown) [1, 0, 8, 5, 13],
           plain (JSCall Unknown) [2, 0, 8, 5, 12]]) = 1"
proof -
  let ?g = "graph_phi [4]"
  let ?fs = "[Function (fn 1 10), Function (fn 2 50)]"
  let ?g' = "?g @ [plain ReferenceEqual [4, 1], plain Branch [10, 3], plain IfFalse [11],
         plain IfTrue [11], plain (JSCall Unknown) [1, 0, 8, 5, 13],
         plain (JSCall Unknown) [2, 0, 8, 5, 12]]"
  have h1: "9 < length ?g" by code_simp
  have h2: "IsInlineeOpcode (opcode ?g 9)" by code_simp
  have h3: "CreateDispatch ?g 9 4 ?fs (GetControlInput ?g 9)
              (map (InputAt ?g 9) [0..<InputCount ?g 9]) (InputCount ?g 9) = (?g', [14, 15])"
    by code_simp
  have e: "operator (?g ! 9) = JSCall Unknown" "inputs (?g ! 9) = [4, 0, 8, 5, 3]"
    "InputCount ?g 9 = 5" "GetControlInput ?g 9 = 3" "count_operator ReferenceEqual ?g = 0"
    by code_simp+
  from CreateDispatch_shape[OF h1 h2 h3] h3 show ?thesis
    by (simp only: e) simp
qed

end
